theory Spec2Isabelle
  imports Main "HOL-Library.Word" "HOL-Library.Sublist"
begin

unbundle bit_operations_syntax

section \<open>JavaScript strings\<close>

text \<open>
  A JavaScript string is a sequence of 16-bit code units. String literals of the
  source are embedded with \<open>js\<close>; all literals of the modelled code are ASCII except
  the bullet U+2022 used when the relative time text is cleaned.
\<close>

type_synonym jsstring = "16 word list"

definition js :: "string \<Rightarrow> jsstring" where
  "js s = map of_char s"

text \<open>\<^verbatim>\<open>s.includes(sub)\<close>: \<open>sub\<close> occurs in \<open>s\<close> as a contiguous run.\<close>

fun js_includes :: "jsstring \<Rightarrow> jsstring \<Rightarrow> bool" where
  "js_includes [] sub = (sub = [])"
| "js_includes (c # cs) sub = (prefix sub (c # cs) \<or> js_includes cs sub)"

text \<open>
  \<^verbatim>\<open>s.split(sep)\<close> for a non-empty separator: the pieces between the occurrences of
  \<open>sep\<close>, scanning left to right; the result is never empty. \<open>cur\<close> is the piece
  being read. (The source never splits on the empty string; for it this function
  returns the whole string as one piece.)
\<close>

function split_from :: "jsstring \<Rightarrow> jsstring \<Rightarrow> jsstring \<Rightarrow> jsstring list" where
  "split_from sep cur [] = [cur]"
| "split_from sep cur (c # cs) =
     (if sep \<noteq> [] \<and> prefix sep (c # cs)
      then cur # split_from sep [] (drop (length sep) (c # cs))
      else split_from sep (cur @ [c]) cs)"
  by pat_completeness auto
termination
  by (relation "measure (\<lambda>(sep, cur, s). length s)") auto

definition js_split :: "jsstring \<Rightarrow> jsstring \<Rightarrow> jsstring list" where
  "js_split sep s = split_from sep [] s"

text \<open>\<^verbatim>\<open>parts.join(sep)\<close>.\<close>

fun js_join :: "jsstring \<Rightarrow> jsstring list \<Rightarrow> jsstring" where
  "js_join sep [] = []"
| "js_join sep [p] = p"
| "js_join sep (p # q # ps) = p @ sep @ js_join sep (q # ps)"

text \<open>
  \<^verbatim>\<open>a[0]\<close> on an array of strings: \<open>None\<close> stands for \<^verbatim>\<open>undefined\<close>.
\<close>

definition first_elem :: "'a list \<Rightarrow> 'a option" where
  "first_elem xs = (case xs of [] \<Rightarrow> None | x # _ \<Rightarrow> Some x)"

text \<open>
  White space and line terminators removed by \<^verbatim>\<open>String.prototype.trim\<close>.
\<close>

definition js_space :: "16 word \<Rightarrow> bool" where
  "js_space c = (c \<in> set [0x09, 0x0A, 0x0B, 0x0C, 0x0D, 0x20, 0xA0, 0x1680,
       0x2000, 0x2001, 0x2002, 0x2003, 0x2004, 0x2005, 0x2006, 0x2007, 0x2008,
       0x2009, 0x200A, 0x2028, 0x2029, 0x202F, 0x205F, 0x3000, 0xFEFF])"

definition js_trim :: "jsstring \<Rightarrow> jsstring" where
  "js_trim s = rev (dropWhile js_space (rev (dropWhile js_space s)))"

section \<open>Collection pipeline: \<^verbatim>\<open>scripts/fetch-posts.ts\<close>\<close>

subsection \<open>Phase 2: snapshot extraction\<close>

text \<open>
  The part of a \<^verbatim>\<open>div.feed-shared-update-v2\<close> element that the extraction reads:
  its \<^verbatim>\<open>data-urn\<close> attribute (\<open>None\<close> when \<^verbatim>\<open>getAttribute\<close> gives \<^verbatim>\<open>null\<close>), the
  \<^verbatim>\<open>href\<close> of its anchors in document order, and its sub-description element
  with the text of the \<^verbatim>\<open>aria-hidden\<close> span inside it, when there is one.
\<close>

record sub_description =
  aria_hidden_text :: "jsstring option"
  text_content :: jsstring

record feed_update =
  data_urn :: "jsstring option"
  hrefs :: "jsstring list"
  sub_desc :: "sub_description option"

record raw_item =
  postUrn :: jsstring
  postUrl :: jsstring
  timeText :: jsstring

record post_ref =
  ref_postUrn :: jsstring
  ref_postUrl :: jsstring
  ref_posted_at :: jsstring

definition bullet :: "16 word" where
  "bullet = 0x2022"

text \<open>The loop over the anchors: the first matching \<^verbatim>\<open>href\<close>, cut at \<^verbatim>\<open>?\<close>.\<close>

fun link_url :: "jsstring list \<Rightarrow> jsstring" where
  "link_url [] = []"
| "link_url (href # links) =
     (if js_includes href (js ''/feed/update/urn:li:activity:'') \<or> js_includes href (js ''/posts/'')
      then (case first_elem (js_split (js ''?'') href) of Some p \<Rightarrow> p | None \<Rightarrow> [])
      else link_url links)"

definition time_text :: "sub_description option \<Rightarrow> jsstring" where
  "time_text sd =
     (case sd of
        None \<Rightarrow> []
      | Some d \<Rightarrow>
          (let t = js_trim (case aria_hidden_text d of Some a \<Rightarrow> a | None \<Rightarrow> text_content d)
           in js_trim (case first_elem (js_split [bullet] t) of Some p \<Rightarrow> p | None \<Rightarrow> [])))"

text \<open>The body of \<^verbatim>\<open>updates.forEach\<close>: \<open>None\<close> is the early \<^verbatim>\<open>return\<close>.\<close>

definition extract_update :: "feed_update \<Rightarrow> raw_item option" where
  "extract_update u =
     (let urn = (case data_urn u of Some a \<Rightarrow> a | None \<Rightarrow> [])
      in if urn = [] then None
         else
           (let l = link_url (hrefs u);
                url = (if l = [] then js ''https://www.linkedin.com/feed/update/'' @ urn @ js ''/''
                       else l)
            in Some \<lparr>postUrn = urn, postUrl = url, timeText = time_text (sub_desc u)\<rparr>))"

definition extract_all :: "feed_update list \<Rightarrow> raw_item list" where
  "extract_all updates = List.map_filter extract_update updates"

subsection \<open>Phase 3: deduplication and windowing\<close>

text \<open>
  \<^verbatim>\<open>uniquePosts\<close> is a \<^verbatim>\<open>Map\<close>, which iterates in insertion order: an association list
  to which a new key is appended. The loop also counts the duplicates.
\<close>

type_synonym unique_posts = "(jsstring \<times> post_ref) list"

definition to_ref :: "raw_item \<Rightarrow> post_ref" where
  "to_ref item =
     \<lparr>ref_postUrn = postUrn item, ref_postUrl = postUrl item, ref_posted_at = timeText item\<rparr>"

definition map_has :: "unique_posts \<Rightarrow> jsstring \<Rightarrow> bool" where
  "map_has m k = (k \<in> fst ` set m)"

fun dedup_loop :: "raw_item list \<Rightarrow> unique_posts \<Rightarrow> nat \<Rightarrow> unique_posts \<times> nat" where
  "dedup_loop [] m duplicates = (m, duplicates)"
| "dedup_loop (item # items) m duplicates =
     (if postUrn item = [] then dedup_loop items m duplicates
      else if map_has m (postUrn item) then dedup_loop items m (Suc duplicates)
      else dedup_loop items (m @ [(postUrn item, to_ref item)]) duplicates)"

definition all_posts :: "raw_item list \<Rightarrow> post_ref list" where
  "all_posts allExtracted = take 30 (map snd (fst (dedup_loop allExtracted [] 0)))"

text \<open>
  The specification's wording, for comparison: first-occurrence deduplication by a
  key, in first-seen order. An element is kept and every later element with its key
  is dropped.
\<close>

fun first_occurrences :: "('a \<Rightarrow> 'k) \<Rightarrow> 'a list \<Rightarrow> 'a list" where
  "first_occurrences key [] = []"
| "first_occurrences key (x # xs) = x # first_occurrences key (filter (\<lambda>y. key y \<noteq> key x) xs)"

section \<open>Credential vault: \<^verbatim>\<open>lib/encryption.ts\<close>\<close>

type_synonym byte = "8 word"
type_synonym bytes = "byte list"

subsection \<open>Hex strings of a \<^verbatim>\<open>Buffer\<close>\<close>

text \<open>\<^verbatim>\<open>buf.toString('hex')\<close>: two lower-case digits for each byte.\<close>

definition hex_digit :: "nat \<Rightarrow> 16 word" where
  "hex_digit n = (if n < 10 then of_nat (0x30 + n) else of_nat (0x61 + (n - 10)))"

definition hex_encode :: "bytes \<Rightarrow> jsstring" where
  "hex_encode bs = concat (map (\<lambda>b. [hex_digit (unat b div 16), hex_digit (unat b mod 16)]) bs)"

text \<open>
  The hex decoder of \<^verbatim>\<open>Buffer\<close> reads the low byte of each code unit of the string
  and takes that byte as a character, so a code unit above \<open>0xFF\<close> counts as the
  hex digit its low byte is, if it is one (U+0130 as \<^verbatim>\<open>0\<close>).
\<close>

definition unhex :: "16 word \<Rightarrow> nat option" where
  "unhex c =
     (let n = unat c mod 256 in
      if 0x30 \<le> n \<and> n \<le> 0x39 then Some (n - 0x30)
      else if 0x61 \<le> n \<and> n \<le> 0x66 then Some (n - 0x61 + 10)
      else if 0x41 \<le> n \<and> n \<le> 0x46 then Some (n - 0x41 + 10)
      else None)"

text \<open>
  \<^verbatim>\<open>Buffer.from(s, 'hex')\<close> does not fail: it decodes pairs of hex digits from the
  left and stops, keeping what it has, at the first pair that is not two hex digits
  or at a single trailing character.
\<close>

fun hex_decode :: "jsstring \<Rightarrow> bytes" where
  "hex_decode (a # b # rest) =
     (case unhex a of
        None \<Rightarrow> []
      | Some h \<Rightarrow> (case unhex b of None \<Rightarrow> [] | Some l \<Rightarrow> of_nat (16 * h + l) # hex_decode rest))"
| "hex_decode _ = []"

subsection \<open>UTF-8, as \<^verbatim>\<open>cipher.update(text)\<close> and \<^verbatim>\<open>buf.toString()\<close> apply it\<close>

definition is_high :: "16 word \<Rightarrow> bool" where
  "is_high c = (0xD800 \<le> unat c \<and> unat c \<le> 0xDBFF)"

definition is_low :: "16 word \<Rightarrow> bool" where
  "is_low c = (0xDC00 \<le> unat c \<and> unat c \<le> 0xDFFF)"

definition encode_cp :: "nat \<Rightarrow> bytes" where
  "encode_cp n =
     (if n < 0x80 then [of_nat n]
      else if n < 0x800 then [of_nat (0xC0 + n div 64), of_nat (0x80 + n mod 64)]
      else if n < 0x10000 then
        [of_nat (0xE0 + n div 4096), of_nat (0x80 + n div 64 mod 64), of_nat (0x80 + n mod 64)]
      else
        [of_nat (0xF0 + n div 262144), of_nat (0x80 + n div 4096 mod 64),
         of_nat (0x80 + n div 64 mod 64), of_nat (0x80 + n mod 64)])"

text \<open>
  A string is written as UTF-8: a high surrogate followed by a low surrogate is one
  code point, and a surrogate without its partner is written as U+FFFD.
\<close>

fun utf8_encode :: "jsstring \<Rightarrow> bytes" where
  "utf8_encode [] = []"
| "utf8_encode [c] = (if is_high c \<or> is_low c then encode_cp 0xFFFD else encode_cp (unat c))"
| "utf8_encode (c # d # cs) =
     (if is_high c \<and> is_low d
      then encode_cp (0x10000 + (unat c - 0xD800) * 1024 + (unat d - 0xDC00)) @ utf8_encode cs
      else if is_high c \<or> is_low c then encode_cp 0xFFFD @ utf8_encode (d # cs)
      else encode_cp (unat c) @ utf8_encode (d # cs))"

definition from_cp :: "nat \<Rightarrow> jsstring" where
  "from_cp n =
     (if n < 0x10000 then [of_nat n]
      else [of_nat (0xD800 + (n - 0x10000) div 1024), of_nat (0xDC00 + (n - 0x10000) mod 1024)])"

definition cont :: "byte \<Rightarrow> bool" where
  "cont b = (0x80 \<le> unat b \<and> unat b \<le> 0xBF)"

text \<open>
  Bytes are read as UTF-8; an ill-formed sequence gives U+FFFD and decoding goes on
  at the byte that broke it. The second byte of a three-byte or four-byte sequence
  has the narrower ranges that exclude overlong forms, surrogates and code points
  above U+10FFFF.
\<close>

definition second_ok :: "byte \<Rightarrow> byte \<Rightarrow> bool" where
  "second_ok b c =
     (let lo = (if unat b = 0xE0 then 0xA0 else if unat b = 0xF0 then 0x90 else 0x80);
          hi = (if unat b = 0xED then 0x9F else if unat b = 0xF4 then 0x8F else 0xBF)
      in lo \<le> unat c \<and> unat c \<le> hi)"

fun utf8_decode :: "bytes \<Rightarrow> jsstring" where
  "utf8_decode [] = []"
| "utf8_decode (b # bs) =
     (if unat b < 0x80 then of_nat (unat b) # utf8_decode bs
      else if 0xC2 \<le> unat b \<and> unat b \<le> 0xDF then
        (case bs of
           [] \<Rightarrow> [0xFFFD]
         | c # cs \<Rightarrow>
             if cont c
             then from_cp ((unat b - 0xC0) * 64 + (unat c - 0x80)) @ utf8_decode cs
             else 0xFFFD # utf8_decode bs)
      else if 0xE0 \<le> unat b \<and> unat b \<le> 0xEF then
        (case bs of
           [] \<Rightarrow> [0xFFFD]
         | c # cs \<Rightarrow>
             if second_ok b c then
               (case cs of
                  [] \<Rightarrow> [0xFFFD]
                | d # ds \<Rightarrow>
                    if cont d
                    then from_cp ((unat b - 0xE0) * 4096 + (unat c - 0x80) * 64 + (unat d - 0x80))
                           @ utf8_decode ds
                    else 0xFFFD # utf8_decode cs)
             else 0xFFFD # utf8_decode bs)
      else if 0xF0 \<le> unat b \<and> unat b \<le> 0xF4 then
        (case bs of
           [] \<Rightarrow> [0xFFFD]
         | c # cs \<Rightarrow>
             if second_ok b c then
               (case cs of
                  [] \<Rightarrow> [0xFFFD]
                | d # ds \<Rightarrow>
                    if cont d then
                      (case ds of
                         [] \<Rightarrow> [0xFFFD]
                       | e # es \<Rightarrow>
                           if cont e
                           then from_cp ((unat b - 0xF0) * 262144 + (unat c - 0x80) * 4096
                                          + (unat d - 0x80) * 64 + (unat e - 0x80))
                                  @ utf8_decode es
                           else 0xFFFD # utf8_decode ds)
                    else 0xFFFD # utf8_decode cs)
             else 0xFFFD # utf8_decode bs)
      else 0xFFFD # utf8_decode bs)"

text \<open>A string without unpaired surrogates.\<close>

fun well_formed :: "jsstring \<Rightarrow> bool" where
  "well_formed [] = True"
| "well_formed [c] = (\<not> is_high c \<and> \<not> is_low c)"
| "well_formed (c # d # cs) =
     (if is_high c then is_low d \<and> well_formed cs else \<not> is_low c \<and> well_formed (d # cs))"

subsection \<open>AES-256-CBC with PKCS#7 padding\<close>

text \<open>
  The block cipher is OpenSSL's AES-256 under the key that \<^verbatim>\<open>scryptSync\<close> derives
  when the module is loaded. Both are outside the repository, so the two directions
  of the keyed block function are parameters: \<open>enc_block\<close> and \<open>dec_block\<close> map
  16-byte blocks to 16-byte blocks and \<open>dec_block\<close> inverts \<open>enc_block\<close>. The mode
  and the padding, which \<^verbatim>\<open>update\<close> and \<^verbatim>\<open>final\<close> implement, are written out.
\<close>

record block_cipher =
  enc_block :: "bytes \<Rightarrow> bytes"
  dec_block :: "bytes \<Rightarrow> bytes"

definition block_cipher_ok :: "block_cipher \<Rightarrow> bool" where
  "block_cipher_ok bc =
     (\<forall>b. length b = 16 \<longrightarrow> length (enc_block bc b) = 16 \<and> dec_block bc (enc_block bc b) = b)"

datatype decode_error = InvalidFormat | InvalidIV | WrongFinalBlockLength | BadDecrypt

definition xor_bytes :: "bytes \<Rightarrow> bytes \<Rightarrow> bytes" where
  "xor_bytes a b = map2 (XOR) a b"

definition pkcs7_pad :: "bytes \<Rightarrow> bytes" where
  "pkcs7_pad m = (let n = 16 - length m mod 16 in m @ replicate n (of_nat n))"

definition pkcs7_unpad :: "bytes \<Rightarrow> decode_error + bytes" where
  "pkcs7_unpad m =
     (if m = [] then Inl WrongFinalBlockLength
      else
        (let n = unat (last m) in
         if n = 0 \<or> 16 < n \<or> length m < n then Inl BadDecrypt
         else if drop (length m - n) m \<noteq> replicate n (last m) then Inl BadDecrypt
         else Inr (take (length m - n) m)))"

function blocks :: "bytes \<Rightarrow> bytes list" where
  "blocks m = (if m = [] then [] else take 16 m # blocks (drop 16 m))"
  by pat_completeness auto
termination
  by (relation "measure length") auto

declare blocks.simps [simp del]

fun cbc_encrypt :: "(bytes \<Rightarrow> bytes) \<Rightarrow> bytes \<Rightarrow> bytes list \<Rightarrow> bytes list" where
  "cbc_encrypt E prev [] = []"
| "cbc_encrypt E prev (p # ps) = (let c = E (xor_bytes p prev) in c # cbc_encrypt E c ps)"

fun cbc_decrypt :: "(bytes \<Rightarrow> bytes) \<Rightarrow> bytes \<Rightarrow> bytes list \<Rightarrow> bytes list" where
  "cbc_decrypt D prev [] = []"
| "cbc_decrypt D prev (c # cs) = xor_bytes (D c) prev # cbc_decrypt D c cs"

text \<open>
  \<^verbatim>\<open>createCipheriv\<close> and \<^verbatim>\<open>createDecipheriv\<close> throw unless the IV has 16 bytes.
  \<^verbatim>\<open>update\<close> followed by \<^verbatim>\<open>final\<close> gives the whole output; on decryption \<^verbatim>\<open>final\<close>
  throws when the input is empty or not a whole number of blocks, or when the
  padding is wrong.
\<close>

definition cipher_all :: "block_cipher \<Rightarrow> bytes \<Rightarrow> bytes \<Rightarrow> decode_error + bytes" where
  "cipher_all bc iv m =
     (if length iv \<noteq> 16 then Inl InvalidIV
      else Inr (concat (cbc_encrypt (enc_block bc) iv (blocks (pkcs7_pad m)))))"

definition decipher_all :: "block_cipher \<Rightarrow> bytes \<Rightarrow> bytes \<Rightarrow> decode_error + bytes" where
  "decipher_all bc iv ct =
     (if length iv \<noteq> 16 then Inl InvalidIV
      else if ct = [] \<or> length ct mod 16 \<noteq> 0 then Inl WrongFinalBlockLength
      else pkcs7_unpad (concat (cbc_decrypt (dec_block bc) iv (blocks ct))))"

subsection \<open>\<^verbatim>\<open>encrypt\<close> and \<^verbatim>\<open>decrypt\<close>\<close>

text \<open>
  \<open>iv\<close> is the value of \<^verbatim>\<open>crypto.randomBytes(IV_LENGTH)\<close> of this call. A thrown
  exception is \<open>Inl\<close>.
\<close>

definition encrypt :: "block_cipher \<Rightarrow> bytes \<Rightarrow> jsstring \<Rightarrow> decode_error + jsstring" where
  "encrypt bc iv text =
     (case cipher_all bc iv (utf8_encode text) of
        Inl e \<Rightarrow> Inl e
      | Inr encrypted \<Rightarrow> Inr (hex_encode iv @ js '':'' @ hex_encode encrypted))"

text \<open>\<^verbatim>\<open>textParts.shift()\<close> gives the first part, and \<^verbatim>\<open>undefined\<close> on an empty array.\<close>

definition decrypt :: "block_cipher \<Rightarrow> jsstring \<Rightarrow> decode_error + jsstring" where
  "decrypt bc text =
     (case js_split (js '':'') text of
        [] \<Rightarrow> Inl InvalidFormat
      | ivPart # textParts \<Rightarrow>
          if ivPart = [] then Inl InvalidFormat
          else
            (let iv = hex_decode ivPart;
                 encryptedText = hex_decode (js_join (js '':'') textParts)
             in case decipher_all bc iv encryptedText of
                  Inl e \<Rightarrow> Inl e
                | Inr decrypted \<Rightarrow> Inr (utf8_decode decrypted)))"

text \<open>
  The shape the specification asks \<^verbatim>\<open>decrypt\<close> to validate: exactly two parts around
  one delimiter, each a string of hex digit pairs.
\<close>

definition hex_char :: "16 word \<Rightarrow> bool" where
  "hex_char c =
     (let n = unat c
      in (0x30 \<le> n \<and> n \<le> 0x39) \<or> (0x61 \<le> n \<and> n \<le> 0x66) \<or> (0x41 \<le> n \<and> n \<le> 0x46))"

definition valid_hex :: "jsstring \<Rightarrow> bool" where
  "valid_hex s = (even (length s) \<and> list_all hex_char s)"

definition two_part_hex :: "jsstring \<Rightarrow> bool" where
  "two_part_hex text =
     (case js_split (js '':'') text of [a, b] \<Rightarrow> valid_hex a \<and> valid_hex b | _ \<Rightarrow> False)"

text \<open>
  A block cipher to run the definitions on: every byte of a block is moved by one.
\<close>

definition shift_cipher :: block_cipher where
  "shift_cipher = \<lparr>enc_block = map (\<lambda>b. b + 1), dec_block = map (\<lambda>b. b - 1)\<rparr>"

text \<open>
  The block ciphers that can be inverted, AES under the key of any secret among
  them, as a type; and the 16 bytes that \<^verbatim>\<open>crypto.randomBytes(16)\<close> returns, read from
  a source of bytes.
\<close>

typedef invertible_cipher = "{bc. block_cipher_ok bc}"
  morphisms cipher_of Abs_invertible_cipher
  by (rule exI [of _ shift_cipher]) (simp add: block_cipher_ok_def shift_cipher_def comp_def)

definition randomBytes16 :: "(nat \<Rightarrow> byte) \<Rightarrow> bytes" where
  "randomBytes16 source = map source [0..<16]"

section \<open>Session broker: \<^verbatim>\<open>app/api/linkedin/status/route.ts\<close>\<close>

text \<open>
  A parsed JSON document. Numbers are only passed through by the handler, and an
  object that \<^verbatim>\<open>JSON.parse\<close> returns holds each key once.
\<close>

datatype json =
    JNull
  | JBool bool
  | JNum int
  | JStr jsstring
  | JArr "json list"
  | JObj "(jsstring \<times> json) list"

text \<open>
  Reading a property of a value that is not \<^verbatim>\<open>null\<close>: \<open>None\<close> is \<^verbatim>\<open>undefined\<close>. Only
  \<^verbatim>\<open>status\<close> and \<^verbatim>\<open>cookie\<close> are read, which only an object can have. Reading a
  property of \<^verbatim>\<open>null\<close> throws; the handler below treats that case before it reads.
\<close>

fun get_prop :: "json \<Rightarrow> jsstring \<Rightarrow> json option" where
  "get_prop (JObj members) k = map_of members k"
| "get_prop _ k = None"

record response =
  http_status :: nat
  body :: json

definition json_response :: "json \<Rightarrow> response" where
  "json_response j = \<lparr>http_status = 200, body = j\<rparr>"

definition status_doc :: "string \<Rightarrow> json" where
  "status_doc st = JObj [(js ''status'', JStr (js st))]"

definition error_doc :: "string \<Rightarrow> json" where
  "error_doc msg = JObj [(js ''status'', JStr (js ''error'')), (js ''message'', JStr (js msg))]"

definition waiting :: response where
  "waiting = json_response (status_doc ''waiting'')"

definition connected :: response where
  "connected = json_response (status_doc ''connected'')"

definition session_id_required :: response where
  "session_id_required =
     \<lparr>http_status = 400, body = JObj [(js ''error'', JStr (js ''Session ID is required''))]\<rparr>"

definition failed_to_read :: response where
  "failed_to_read = \<lparr>http_status = 500, body = error_doc ''Failed to read session data''\<rparr>"

definition failed_to_save :: response where
  "failed_to_save = \<lparr>http_status = 500, body = error_doc ''Failed to save account''\<rparr>"

text \<open>A row of \<^verbatim>\<open>linkedin_accounts\<close> (\<^verbatim>\<open>lib/db.ts\<close>); \<^verbatim>\<open>id\<close> is the primary key.\<close>

record account_row =
  acc_id :: jsstring
  user_id :: jsstring
  li_at_encrypted :: jsstring
  created_at :: nat
  updated_at :: nat

text \<open>
  The server's state: the files of \<^verbatim>\<open>os.tmpdir()\<close> by name, and the accounts table.
  File operations on an existing file are taken to succeed, and a file name is
  taken as it is written (\<^verbatim>\<open>path.join\<close> would resolve a session id that contains
  path separators).
\<close>

record server =
  tmp_files :: "jsstring \<rightharpoonup> jsstring"
  linkedin_accounts :: "account_row list"

text \<open>
  What one request brings from outside: the \<^verbatim>\<open>sessionId\<close> query parameter (\<open>None\<close>
  when absent), the values that \<^verbatim>\<open>randomBytes\<close>, \<^verbatim>\<open>uuidv4\<close> and the database clock
  give during the request, and whether the database refuses the statement (locked,
  read-only, full).
\<close>

record request =
  sessionId :: "jsstring option"
  random_bytes :: bytes
  uuid :: jsstring
  current_timestamp :: nat
  db_refuses :: bool

definition resultPath :: "jsstring \<Rightarrow> jsstring" where
  "resultPath sid = js ''linkedin-session-'' @ sid @ js ''.json''"

datatype save_error = EncryptThrew | InsertThrew

definition insert_account :: "request \<Rightarrow> jsstring \<Rightarrow> account_row list \<Rightarrow> save_error + account_row list" where
  "insert_account req li_at_enc rows =
     (if db_refuses req \<or> uuid req \<in> acc_id ` set rows then Inl InsertThrew
      else Inr (rows @ [\<lparr>acc_id = uuid req, user_id = js ''demo-user'', li_at_encrypted = li_at_enc,
                         created_at = current_timestamp req, updated_at = current_timestamp req\<rparr>]))"

text \<open>
  The inner \<^verbatim>\<open>try\<close> block. \<^verbatim>\<open>cipher.update\<close> throws on a \<^verbatim>\<open>cookie\<close> that is not a string.
\<close>

definition save_cookie :: "block_cipher \<Rightarrow> request \<Rightarrow> json \<Rightarrow> account_row list \<Rightarrow> save_error + account_row list" where
  "save_cookie bc req result rows =
     (case get_prop result (js ''cookie'') of
        Some (JStr cookie) \<Rightarrow>
          (case encrypt bc (random_bytes req) cookie of
             Inl e \<Rightarrow> Inl EncryptThrew
           | Inr li_at_enc \<Rightarrow> insert_account req li_at_enc rows)
      | _ \<Rightarrow> Inl EncryptThrew)"

text \<open>
  The handler. \<open>parse\<close> is \<^verbatim>\<open>JSON.parse\<close>, with \<open>None\<close> when it throws. The file is
  unlinked after \<^verbatim>\<open>JSON.parse\<close> has returned and before the result is looked at.
\<close>

definition GET :: "(jsstring \<Rightarrow> json option) \<Rightarrow> block_cipher \<Rightarrow> request \<Rightarrow> server \<Rightarrow> response \<times> server" where
  "GET parse bc req st =
     (case sessionId req of
        None \<Rightarrow> (session_id_required, st)
      | Some sid \<Rightarrow>
          if sid = [] then (session_id_required, st)
          else
            (case tmp_files st (resultPath sid) of
               None \<Rightarrow> (waiting, st)
             | Some data \<Rightarrow>
                 (case parse data of
                    None \<Rightarrow> (failed_to_read, st)
                  | Some result \<Rightarrow>
                      (let st1 = st\<lparr>tmp_files := (tmp_files st)(resultPath sid := None)\<rparr>
                       in if result = JNull then (failed_to_read, st1)
                          else if get_prop result (js ''status'') = Some (JStr (js ''success'')) then
                            (case save_cookie bc req result (linkedin_accounts st1) of
                               Inl e \<Rightarrow> (failed_to_save, st1)
                             | Inr rows \<Rightarrow> (connected, st1\<lparr>linkedin_accounts := rows\<rparr>))
                          else (json_response result, st1)))))"

text \<open>A sequence of requests, one after the other, with the responses in order.\<close>

fun polls :: "(jsstring \<Rightarrow> json option) \<Rightarrow> block_cipher \<Rightarrow> request list \<Rightarrow> server \<Rightarrow> response list \<times> server" where
  "polls parse bc [] st = ([], st)"
| "polls parse bc (req # reqs) st =
     (let (r, st1) = GET parse bc req st;
          (rs, st2) = polls parse bc reqs st1
      in (r # rs, st2))"

section \<open>The run of \<^verbatim>\<open>fetchPosts\<close>\<close>

text \<open>
  What the run meets outside the program: the newest account row, whether the
  browser starts, how the navigation to the feed ends and which URL the page then
  has, how the navigation to the activity page ends, and the feed elements in the
  document when the snapshot is taken. The other browser calls (cookies, waits,
  scrolls, the evaluation of the snapshot) and the write of the file are taken to
  succeed. The upsert to the remote table, which follows the write, is left out: it
  reads \<^verbatim>\<open>allPosts\<close> and touches neither the file nor the browser.
\<close>

datatype goto_outcome = Navigated | GotoThrew jsstring

record collect_world =
  cw_account :: "account_row option"
  cw_launch_ok :: bool
  cw_feed_goto :: goto_outcome
  cw_feed_url :: jsstring
  cw_activity_goto :: goto_outcome
  cw_updates :: "feed_update list"

datatype browser_action =
    Launch
  | AddCookie jsstring
  | Goto jsstring
  | WaitForSelector
  | ScrollBy
  | CountUpdates
  | Snapshot
  | CloseBrowser

datatype collect_result = NoAccount | SessionInvalid | FatalError | FetchCompleted

text \<open>\<^verbatim>\<open>data/posts.json\<close>: \<open>None\<close> when the file does not exist.\<close>

record posts_disk =
  posts_json :: "post_ref list option"

definition scroll_phase :: "browser_action list" where
  "scroll_phase = concat (replicate 50 [ScrollBy, CountUpdates])"

definition redirect_error :: "goto_outcome \<Rightarrow> bool" where
  "redirect_error g =
     (case g of
        Navigated \<Rightarrow> False
      | GotoThrew s \<Rightarrow> js_includes s (js ''ERR_TOO_MANY_REDIRECTS'') \<or> js_includes s (js ''ERR_ABORTED''))"

definition fetchPosts :: "block_cipher \<Rightarrow> collect_world \<Rightarrow> posts_disk
    \<Rightarrow> collect_result \<times> posts_disk \<times> browser_action list" where
  "fetchPosts bc w d =
     (case cw_account w of
        None \<Rightarrow> (NoAccount, d, [])
      | Some account \<Rightarrow>
          (case decrypt bc (li_at_encrypted account) of
             Inl e \<Rightarrow> (FatalError, d, [])
           | Inr li_at \<Rightarrow>
               if \<not> cw_launch_ok w then (FatalError, d, [])
               else
                 (let started = [Launch, AddCookie li_at, Goto (js ''https://www.linkedin.com/feed/'')]
                  in if redirect_error (cw_feed_goto w) then (SessionInvalid, d, started @ [CloseBrowser])
                     else if js_includes (cw_feed_url w) (js ''login'')
                             \<or> js_includes (cw_feed_url w) (js ''guest'')
                     then (SessionInvalid, d, started @ [CloseBrowser])
                     else
                       (let to_activity = started
                              @ [Goto (js ''https://www.linkedin.com/in/me/recent-activity/all/'')]
                        in case cw_activity_goto w of
                             GotoThrew s \<Rightarrow> (FatalError, d, to_activity)
                           | Navigated \<Rightarrow>
                               (let allExtracted = extract_all (cw_updates w);
                                    allPosts = all_posts allExtracted
                                in (FetchCompleted, d\<lparr>posts_json := Some allPosts\<rparr>,
                                    to_activity @ [WaitForSelector] @ scroll_phase
                                      @ [Snapshot, CloseBrowser]))))))"

section \<open>Enrichment pipeline: \<^verbatim>\<open>scripts/fetch-post-analytics.ts\<close>\<close>

text \<open>
  An entry of \<^verbatim>\<open>data/posts.json\<close> as the enrichment reads it: the fields that
  \<^verbatim>\<open>fetchPosts\<close> writes and the field \<^verbatim>\<open>url\<close> of older files (\<open>None\<close> when absent).
  A missing \<^verbatim>\<open>postUrn\<close> behaves like the empty string.
\<close>

record stored_post = post_ref +
  url :: "jsstring option"

text \<open>
  The numbers of this script are what \<^verbatim>\<open>parseInt\<close> makes of a string of decimal
  digits, with 0 for \<^verbatim>\<open>NaN\<close>: a double that is a natural number, or \<^verbatim>\<open>Infinity\<close>.
  \<open>number_of_nat\<close> is the Number value of a natural number: the number itself
  below \<open>2^53\<close>, above it the nearest number with 53 significant bits (a tie goes
  to the even one), and \<^verbatim>\<open>Infinity\<close> from \<open>2^1024 - 2^970\<close> on, which is half way from
  the largest double to \<open>2^1024\<close>.
\<close>

datatype jsnum = Finite nat | Infinity

fun bit_length :: "nat \<Rightarrow> nat" where
  "bit_length n = (if n = 0 then 0 else Suc (bit_length (n div 2)))"

declare bit_length.simps [simp del]

definition double_overflow :: nat where
  "double_overflow = 2 ^ 1024 - 2 ^ 970"

definition number_of_nat :: "nat \<Rightarrow> jsnum" where
  "number_of_nat n =
     (if double_overflow \<le> n then Infinity
      else if n < 2 ^ 53 then Finite n
      else
        (let s = bit_length n - 53;
             q = n div 2 ^ s;
             r = n mod 2 ^ s;
             half = 2 ^ (s - 1);
             q' = (if half < r \<or> (r = half \<and> odd q) then q + 1 else q)
         in Finite (q' * 2 ^ s)))"

text \<open>\<^verbatim>\<open>JSON.stringify\<close> writes a number that is not finite as \<^verbatim>\<open>null\<close>.\<close>

definition json_number :: "jsnum \<Rightarrow> json" where
  "json_number x = (case x of Finite n \<Rightarrow> JNum (int n) | Infinity \<Rightarrow> JNull)"

text \<open>What \<^verbatim>\<open>page.evaluate\<close> returns for one post.\<close>

record extracted =
  content :: jsstring
  imageUrl :: jsstring
  likes :: jsnum
  comments :: jsnum
  reposts :: jsnum
  impressionsText :: jsstring
  date :: jsstring

text \<open>
  One pass through the inner \<^verbatim>\<open>try\<close> block: navigation or evaluation throws, or the
  page gives its data.
\<close>

datatype visit = VisitThrew | Evaluated extracted

text \<open>
  \<^verbatim>\<open>{...post, ...data, impressions}\<close>; the fields of \<open>post\<close> and \<open>data\<close> have different
  names.
\<close>

record enriched =
  en_post :: stored_post
  en_data :: extracted
  impressions :: jsnum

text \<open>
  \<^verbatim>\<open>parseInt(text.replace(/[^0-9]/g, ''), 10) || 0\<close>: the Number value of the digits
  of the text, and 0 when there are none.
\<close>

definition is_digit :: "16 word \<Rightarrow> bool" where
  "is_digit c = (0x30 \<le> unat c \<and> unat c \<le> 0x39)"

definition digits_value :: "jsstring \<Rightarrow> nat" where
  "digits_value ds = foldl (\<lambda>a c. 10 * a + (unat c - 0x30)) 0 ds"

definition count_of :: "jsstring \<Rightarrow> jsnum" where
  "count_of text =
     (let ds = filter is_digit text
      in if ds = [] then Finite 0 else number_of_nat (digits_value ds))"

text \<open>
  \<^verbatim>\<open>post.postUrn || post.url.split('activity:')[1]?.split('/')[0]\<close>. The outer \<open>None\<close>
  is the \<^verbatim>\<open>TypeError\<close> of reading \<^verbatim>\<open>split\<close> from an absent \<^verbatim>\<open>url\<close>; the inner
  \<open>None\<close> is \<^verbatim>\<open>undefined\<close>.
\<close>

definition second_elem :: "'a list \<Rightarrow> 'a option" where
  "second_elem xs = (case xs of _ # y # _ \<Rightarrow> Some y | _ \<Rightarrow> None)"

definition post_urn :: "stored_post \<Rightarrow> jsstring option option" where
  "post_urn post =
     (if ref_postUrn post \<noteq> [] then Some (Some (ref_postUrn post))
      else
        (case url post of
           None \<Rightarrow> None
         | Some u \<Rightarrow>
             Some (case second_elem (js_split (js ''activity:'') u) of
                     None \<Rightarrow> None
                   | Some p \<Rightarrow> first_elem (js_split (js ''/'') p))))"

definition detail_url :: "jsstring option \<Rightarrow> jsstring" where
  "detail_url urn =
     js ''https://www.linkedin.com/feed/update/''
       @ (case urn of None \<Rightarrow> js ''undefined'' | Some u \<Rightarrow> u) @ js ''/''"

datatype log_line =
    Processing jsstring
  | SkippingZeroImpressions jsstring
  | ExtractedImpressions jsstring
  | FailedToProcess

text \<open>
  The state of the loop: the accumulated \<^verbatim>\<open>results\<close>, the URLs given to
  \<^verbatim>\<open>page.goto\<close>, and the log.
\<close>

record progress =
  results :: "enriched list"
  visited :: "jsstring list"
  logged :: "log_line list"

definition no_progress :: progress where
  "no_progress = \<lparr>results = [], visited = [], logged = []\<rparr>"

text \<open>
  The loop over \<^verbatim>\<open>targetPosts\<close>. \<open>page i u\<close> is what the \<open>i\<close>-th navigation, to \<open>u\<close>,
  gives. The first component of the result is \<open>False\<close> when an exception left the
  loop (the urn is computed outside the inner \<^verbatim>\<open>try\<close>).
\<close>

fun enrich_loop :: "(nat \<Rightarrow> jsstring \<Rightarrow> visit) \<Rightarrow> nat \<Rightarrow> stored_post list \<Rightarrow> progress
    \<Rightarrow> bool \<times> progress" where
  "enrich_loop page i [] pr = (True, pr)"
| "enrich_loop page i (post # posts) pr =
     (case post_urn post of
        None \<Rightarrow> (False, pr)
      | Some urn \<Rightarrow>
          (let postUrl = detail_url urn;
               pr1 = pr\<lparr>visited := visited pr @ [postUrl], logged := logged pr @ [Processing postUrl]\<rparr>
           in case page i postUrl of
                VisitThrew \<Rightarrow>
                  enrich_loop page (Suc i) posts (pr1\<lparr>logged := logged pr1 @ [FailedToProcess]\<rparr>)
              | Evaluated data \<Rightarrow>
                  (let impressionCount = count_of (impressionsText data)
                   in if impressionCount = Finite 0
                      then enrich_loop page (Suc i) posts
                             (pr1\<lparr>logged := logged pr1 @ [SkippingZeroImpressions postUrl]\<rparr>)
                      else enrich_loop page (Suc i) posts
                             (pr1\<lparr>results := results pr1
                                      @ [\<lparr>en_post = post, en_data = data, impressions = impressionCount\<rparr>],
                                   logged := logged pr1 @ [ExtractedImpressions (impressionsText data)]\<rparr>))))"

text \<open>
  The predicate of the final filter, which reads \<^verbatim>\<open>impressionsText\<close> again; \<open>n > 0\<close>
  holds of every number here but 0, of \<^verbatim>\<open>Infinity\<close> too.
\<close>

definition final_keep :: "enriched \<Rightarrow> bool" where
  "final_keep r =
     (let t = impressionsText (en_data r)
      in count_of (if t = [] then js ''0'' else t) \<noteq> Finite 0)"

text \<open>
  \<^verbatim>\<open>JSON.stringify\<close> of an entry, as a reader of the artifact parses it.
\<close>

definition post_members :: "stored_post \<Rightarrow> (jsstring \<times> json) list" where
  "post_members p =
     [(js ''postUrn'', JStr (ref_postUrn p)), (js ''postUrl'', JStr (ref_postUrl p)),
      (js ''posted_at'', JStr (ref_posted_at p))]
     @ (case url p of None \<Rightarrow> [] | Some u \<Rightarrow> [(js ''url'', JStr u)])"

definition entry_json :: "enriched \<Rightarrow> json" where
  "entry_json e =
     JObj (post_members (en_post e)
           @ [(js ''content'', JStr (content (en_data e))),
              (js ''imageUrl'', JStr (imageUrl (en_data e))),
              (js ''likes'', json_number (likes (en_data e))),
              (js ''comments'', json_number (comments (en_data e))),
              (js ''reposts'', json_number (reposts (en_data e))),
              (js ''impressionsText'', JStr (impressionsText (en_data e))),
              (js ''date'', JStr (date (en_data e))),
              (js ''impressions'', json_number (impressions e))])"

text \<open>
  The invariant of \<^verbatim>\<open>results\<close>: the \<^verbatim>\<open>impressions\<close> of an entry is the count read from
  its \<^verbatim>\<open>impressionsText\<close>, and is not 0.
\<close>

definition entry_ok :: "enriched \<Rightarrow> bool" where
  "entry_ok e =
     (impressions e \<noteq> Finite 0 \<and> impressions e = count_of (impressionsText (en_data e)))"

text \<open>
  What the loop body makes of the \<open>i\<close>-th post: the entry it pushes, or nothing
  when the visit throws, the count is zero or the urn cannot be computed.
\<close>

definition item_result :: "(nat \<Rightarrow> jsstring \<Rightarrow> visit) \<Rightarrow> nat \<times> stored_post \<Rightarrow> enriched option" where
  "item_result page ip =
     (case post_urn (snd ip) of
        None \<Rightarrow> None
      | Some urn \<Rightarrow>
          (case page (fst ip) (detail_url urn) of
             VisitThrew \<Rightarrow> None
           | Evaluated data \<Rightarrow>
               if count_of (impressionsText data) = Finite 0 then None
               else Some \<lparr>en_post = snd ip, en_data = data,
                          impressions = count_of (impressionsText data)\<rparr>))"

record analytics_world =
  aw_account :: "account_row option"
  aw_launch_ok :: bool
  aw_page :: "nat \<Rightarrow> jsstring \<Rightarrow> visit"

text \<open>
  \<^verbatim>\<open>data/posts.json\<close> as read and \<^verbatim>\<open>data/posts_enriched.json\<close> as written, the
  document that \<^verbatim>\<open>JSON.stringify(finalResults)\<close> denotes; \<open>None\<close> when the file does
  not exist. The file read is taken to hold a JSON array of posts.
\<close>

record analytics_disk =
  posts_file :: "stored_post list option"
  enriched_file :: "json option"

datatype analytics_result = PostsFileMissing | NoPosts | NoAccounts | RunError | Saved

definition fetchAnalytics :: "block_cipher \<Rightarrow> analytics_world \<Rightarrow> analytics_disk
    \<Rightarrow> analytics_result \<times> analytics_disk \<times> progress" where
  "fetchAnalytics bc w d =
     (case posts_file d of
        None \<Rightarrow> (PostsFileMissing, d, no_progress)
      | Some posts \<Rightarrow>
          if posts = [] then (NoPosts, d, no_progress)
          else
            (let targetPosts = take 5 posts
             in case aw_account w of
                  None \<Rightarrow> (NoAccounts, d, no_progress)
                | Some account \<Rightarrow>
                    (case decrypt bc (li_at_encrypted account) of
                       Inl e \<Rightarrow> (RunError, d, no_progress)
                     | Inr li_at \<Rightarrow>
                         if \<not> aw_launch_ok w then (RunError, d, no_progress)
                         else
                           (case enrich_loop (aw_page w) 0 targetPosts no_progress of
                              (False, pr) \<Rightarrow> (RunError, d, pr)
                            | (True, pr) \<Rightarrow>
                                (let finalResults = filter final_keep (results pr)
                                 in (Saved, d\<lparr>enriched_file := Some (JArr (map entry_json finalResults))\<rparr>,
                                     pr))))))"

section \<open>Concrete inputs\<close>

text \<open>
  Values on which the theorems below are instantiated: a stored record (the IV
  of sixteen zero bytes and the \<open>shift_cipher\<close> encryption of \<^verbatim>\<open>AQ\<close>), an account
  holding it, the two documents the login script writes, a \<^verbatim>\<open>JSON.parse\<close> for
  them, feed items and stored posts.
\<close>

definition zero_iv :: bytes where
  "zero_iv = [0, 0, 0, 0, 0, 0, 0, 0, 0, 0, 0, 0, 0, 0, 0, 0]"

definition demo_record :: jsstring where
  "demo_record = js ''00000000000000000000000000000000:42520f0f0f0f0f0f0f0f0f0f0f0f0f0f''"

definition demo_account :: account_row where
  "demo_account =
     \<lparr>acc_id = js ''a1'', user_id = js ''demo-user'', li_at_encrypted = demo_record,
      created_at = 1, updated_at = 1\<rparr>"

definition quoted :: "string \<Rightarrow> jsstring" where
  "quoted s = 0x22 # js s @ [0x22]"

definition timeout_text :: jsstring where
  "timeout_text = js ''{'' @ quoted ''status'' @ js '':'' @ quoted ''timeout'' @ js ''}''"

definition success_text :: jsstring where
  "success_text =
     js ''{'' @ quoted ''status'' @ js '':'' @ quoted ''success'' @ js '',''
       @ quoted ''cookie'' @ js '':'' @ quoted ''AQ'' @ js ''}''"

definition timeout_doc :: json where
  "timeout_doc = JObj [(js ''status'', JStr (js ''timeout''))]"

definition success_doc :: json where
  "success_doc = JObj [(js ''status'', JStr (js ''success'')), (js ''cookie'', JStr (js ''AQ''))]"

definition demo_parse :: "jsstring \<Rightarrow> json option" where
  "demo_parse s =
     (if s = timeout_text then Some timeout_doc
      else if s = success_text then Some success_doc
      else None)"

definition poll_of :: "string \<Rightarrow> bool \<Rightarrow> request" where
  "poll_of sid refuse =
     \<lparr>sessionId = Some (js sid), random_bytes = zero_iv, uuid = js ''id-1'',
      current_timestamp = 2, db_refuses = refuse\<rparr>"

definition server_with :: "jsstring \<Rightarrow> server" where
  "server_with data =
     \<lparr>tmp_files = [resultPath (js ''s1'') \<mapsto> data], linkedin_accounts = []\<rparr>"

definition raw :: "jsstring \<Rightarrow> raw_item" where
  "raw u = \<lparr>postUrn = u, postUrl = js ''https://www.linkedin.com/feed/update/'' @ u @ js ''/'',
            timeText = js ''1w''\<rparr>"

definition items45 :: "raw_item list" where
  "items45 = map (\<lambda>n. raw [of_nat (Suc n)]) [0..<45]"

definition update_of :: "jsstring option \<Rightarrow> feed_update" where
  "update_of a = \<lparr>data_urn = a, hrefs = [], sub_desc = None\<rparr>"

definition stored :: "string \<Rightarrow> stored_post" where
  "stored u = \<lparr>ref_postUrn = js u, ref_postUrl = [], ref_posted_at = js ''1w'', url = None\<rparr>"

definition page_1234 :: "nat \<Rightarrow> jsstring \<Rightarrow> visit" where
  "page_1234 i u =
     Evaluated \<lparr>content = [], imageUrl = [], likes = Finite 0, comments = Finite 0,
                reposts = Finite 0, impressionsText = js ''1,234'', date = []\<rparr>"




definition six_posts :: "stored_post list" where
  "six_posts = map stored [''p1'', ''p2'', ''p3'', ''p4'', ''p5'', ''p6'']"

definition login_world :: collect_world where
  "login_world =
     \<lparr>cw_account = Some demo_account, cw_launch_ok = True, cw_feed_goto = Navigated,
      cw_feed_url = js ''https://www.linkedin.com/login'', cw_activity_goto = Navigated,
      cw_updates = [update_of (Some (js ''A''))]\<rparr>"

definition feed_world :: collect_world where
  "feed_world = login_world\<lparr>cw_feed_url := js ''https://www.linkedin.com/feed/''\<rparr>"

definition demo_world :: analytics_world where
  "demo_world = \<lparr>aw_account = Some demo_account, aw_launch_ok = True, aw_page = page_1234\<rparr>"


section \<open>Strings\<close>

lemma js_colon: "js '':'' = [0x3A]"
  by (simp add: js_def)

lemma split_from_skip: "c \<notin> set a \<Longrightarrow> split_from [c] cur (a @ r) = split_from [c] (cur @ a) r"
  by (induction a arbitrary: cur) auto

lemma split_from_nonempty: "split_from sep cur s \<noteq> []"
  by (induction sep cur s rule: split_from.induct) auto

lemma split_two: "c \<notin> set a \<Longrightarrow> c \<notin> set b \<Longrightarrow> js_split [c] (a @ c # b) = [a, b]"
  using split_from_skip [of c a "[]" "c # b"] split_from_skip [of c b "[]" "[]"]
  by (simp add: js_split_def)

lemma js_join_Cons: "ps \<noteq> [] \<Longrightarrow> js_join sep (p # ps) = p @ sep @ js_join sep ps"
  by (cases ps) auto

lemma join_split: "js_join [c] (split_from [c] cur s) = cur @ s"
proof (induction s arbitrary: cur)
  case Nil
  show ?case by simp
next
  case (Cons x xs)
  show ?case
  proof (cases "x = c")
    case True
    then show ?thesis using Cons [of "[]"] by (simp add: js_join_Cons split_from_nonempty)
  next
    case False
    then show ?thesis using Cons [of "cur @ [x]"] by simp
  qed
qed

lemma takeWhile_upto: "c \<notin> set a \<Longrightarrow> takeWhile (\<lambda>x. x \<noteq> c) (a @ c # r) = a"
  by (induction a) auto

section \<open>Collection: deduplication, window and urns\<close>

lemma map_has_snoc: "map_has (m @ [(k, v)]) k' = (map_has m k' \<or> k' = k)"
  by (auto simp: map_has_def)

text \<open>
  The loop invariant: the map holds what it held, followed by the first occurrences,
  among the items not yet read, of the non-empty urns that are not yet keys.
\<close>

lemma dedup_loop_values:
  "map snd (fst (dedup_loop items m d)) =
     map snd m @ map to_ref (first_occurrences postUrn
        (filter (\<lambda>i. postUrn i \<noteq> [] \<and> \<not> map_has m (postUrn i)) items))"
proof (induction items arbitrary: m d)
  case Nil
  show ?case by simp
next
  case (Cons x xs)
  have eq: "filter (\<lambda>i. postUrn i \<noteq> [] \<and> \<not> map_has (m @ [(postUrn x, to_ref x)]) (postUrn i)) xs
        = filter (\<lambda>y. postUrn y \<noteq> postUrn x)
            (filter (\<lambda>i. postUrn i \<noteq> [] \<and> \<not> map_has m (postUrn i)) xs)"
    by (auto simp: map_has_snoc intro: filter_cong)
  show ?case
    using Cons.IH [of m d] Cons.IH [of m "Suc d"] Cons.IH [of "m @ [(postUrn x, to_ref x)]" d]
    by (simp add: eq)
qed

lemma all_posts_spec:
  "all_posts items =
     take 30 (map to_ref (first_occurrences postUrn (filter (\<lambda>i. postUrn i \<noteq> []) items)))"
  by (simp add: all_posts_def dedup_loop_values map_has_def)

lemma extract_update_urn:
  "extract_update u = Some i \<Longrightarrow> data_urn u = Some (postUrn i) \<and> postUrn i \<noteq> []"
  by (auto simp: extract_update_def Let_def split: option.splits if_splits)

lemma set_map_filter_iff:
  "y \<in> set (List.map_filter f xs) \<longleftrightarrow> (\<exists>x \<in> set xs. f x = Some y)"
  by (induction xs) (auto simp: List.map_filter_simps split: option.splits)

lemma extract_all_urn:
  "i \<in> set (extract_all updates) \<Longrightarrow>
     \<exists>u \<in> set updates. data_urn u = Some (postUrn i) \<and> postUrn i \<noteq> []"
  unfolding extract_all_def set_map_filter_iff by (blast dest: extract_update_urn)

lemma extract_all_filter: "filter (\<lambda>i. postUrn i \<noteq> []) (extract_all updates) = extract_all updates"
  by (rule filter_True) (auto dest: extract_all_urn)

lemma first_occurrences_subset: "set (first_occurrences key xs) \<subseteq> set xs"
proof (induction "length xs" arbitrary: xs rule: less_induct)
  case less
  show ?case
  proof (cases xs)
    case Nil
    then show ?thesis by simp
  next
    case (Cons y ys)
    have "length (filter (\<lambda>z. key z \<noteq> key y) ys) < length xs"
      using Cons by (simp add: less_Suc_eq_le)
    from less [OF this] show ?thesis using Cons by auto
  qed
qed

lemma first_occurrences_distinct: "distinct (map key xs) \<Longrightarrow> first_occurrences key xs = xs"
proof (induction xs)
  case Nil
  show ?case by simp
next
  case (Cons x xs)
  then have "filter (\<lambda>y. key y \<noteq> key x) xs = xs"
    by (intro filter_True) (auto simp: image_iff)
  with Cons show ?case by simp
qed

lemma all_posts_source:
  "r \<in> set (all_posts items) \<Longrightarrow> \<exists>i \<in> set items. r = to_ref i \<and> postUrn i \<noteq> []"
proof -
  assume "r \<in> set (all_posts items)"
  then have "r \<in> to_ref ` set (first_occurrences postUrn (filter (\<lambda>i. postUrn i \<noteq> []) items))"
    unfolding all_posts_spec by (auto dest: in_set_takeD)
  then show ?thesis
    using first_occurrences_subset [of postUrn "filter (\<lambda>i. postUrn i \<noteq> []) items"] by auto
qed

lemma all_posts_pair:
  assumes "postUrn a \<noteq> []" "postUrn b \<noteq> []" "postUrn a' = postUrn a" "postUrn b \<noteq> postUrn a"
  shows "all_posts [a, a', b] = [to_ref a, to_ref b]"
  using assms by (simp add: all_posts_spec)

lemma all_posts_distinct:
  assumes "distinct (map postUrn items)" "[] \<notin> postUrn ` set items"
  shows "all_posts items = map to_ref (take 30 items)"
proof -
  have "filter (\<lambda>i. postUrn i \<noteq> []) items = items"
    using assms(2) by (intro filter_True) (auto simp: image_iff)
  then show ?thesis
    by (simp add: all_posts_spec first_occurrences_distinct [OF assms(1)] take_map)
qed

lemma unat16: "k < 65536 \<Longrightarrow> unat (of_nat k :: 16 word) = k"
  by (simp add: unat_of_nat)

lemma items45_distinct: "distinct (map postUrn items45)"
proof -
  have inj: "inj_on (\<lambda>n. [of_nat (Suc n) :: 16 word]) (set [0..<45])"
  proof (rule inj_onI)
    fix x y :: nat
    assume "x \<in> set [0..<45]" "y \<in> set [0..<45]" "[of_nat (Suc x) :: 16 word] = [of_nat (Suc y)]"
    then have "unat (of_nat (Suc x) :: 16 word) = unat (of_nat (Suc y) :: 16 word)"
      and "Suc x < 65536" "Suc y < 65536" by simp_all
    then show "x = y" by (simp only: unat16)
  qed
  have "map postUrn items45 = map (\<lambda>n. [of_nat (Suc n) :: 16 word]) [0..<45]"
    by (simp add: items45_def raw_def comp_def)
  then show ?thesis using inj by (simp add: distinct_map)
qed

lemma to_ref_fun:
  "to_ref = (\<lambda>i. \<lparr>ref_postUrn = postUrn i, ref_postUrl = postUrl i, ref_posted_at = timeText i\<rparr>)"
  by (rule ext) (simp add: to_ref_def)

text \<open>
  \<^bold>\<open>C6.\<close> For every snapshot of the feed, what the collection keeps of the extracted
  items is their first-occurrence deduplication by urn, in first-seen order, cut to
  the first 30, each kept item written as the reference that has its urn, its link
  and its time text. Three items with the urns A, A, B give the two references of
  the first and the third item; 45 items with distinct urns give the references of
  the first 30 of them, in order.
\<close>

theorem collection_dedup_window:
  "all_posts (extract_all updates)
     = take 30 (map (\<lambda>i. \<lparr>ref_postUrn = postUrn i, ref_postUrl = postUrl i, ref_posted_at = timeText i\<rparr>)
                 (first_occurrences postUrn (extract_all updates)))
   \<and> (postUrn a \<noteq> [] \<longrightarrow> postUrn b \<noteq> [] \<longrightarrow> postUrn a' = postUrn a \<longrightarrow> postUrn b \<noteq> postUrn a
        \<longrightarrow> all_posts [a, a', b]
              = [\<lparr>ref_postUrn = postUrn a, ref_postUrl = postUrl a, ref_posted_at = timeText a\<rparr>,
                 \<lparr>ref_postUrn = postUrn b, ref_postUrl = postUrl b, ref_posted_at = timeText b\<rparr>])
   \<and> (distinct (map postUrn items) \<longrightarrow> [] \<notin> postUrn ` set items \<longrightarrow> length items = 45
        \<longrightarrow> all_posts items
              = map (\<lambda>i. \<lparr>ref_postUrn = postUrn i, ref_postUrl = postUrl i, ref_posted_at = timeText i\<rparr>)
                  (take 30 items)
            \<and> map ref_postUrn (all_posts items) = take 30 (map postUrn items)
            \<and> length (all_posts items) = 30)"
  using all_posts_spec [of "extract_all updates"] all_posts_pair [of a b a']
    all_posts_distinct [of items]
  by (simp add: extract_all_filter to_ref_fun take_map comp_def)

theorem collection_dedup_window_witness:
  "all_posts [raw (js ''A''), raw (js ''A'')\<lparr>timeText := js ''2w''\<rparr>, raw (js ''B'')]
     = [\<lparr>ref_postUrn = js ''A'', ref_postUrl = js ''https://www.linkedin.com/feed/update/A/'',
          ref_posted_at = js ''1w''\<rparr>,
        \<lparr>ref_postUrn = js ''B'', ref_postUrl = js ''https://www.linkedin.com/feed/update/B/'',
          ref_posted_at = js ''1w''\<rparr>]
   \<and> map ref_postUrn (all_posts items45) = map (\<lambda>n. [of_nat (Suc n)]) [0..<30]
   \<and> length (all_posts items45) = 30"
proof -
  have h: "postUrn (raw (js ''A'')) \<noteq> []" "postUrn (raw (js ''B'')) \<noteq> []"
    "postUrn (raw (js ''A'')\<lparr>timeText := js ''2w''\<rparr>) = postUrn (raw (js ''A''))"
    "postUrn (raw (js ''B'')) \<noteq> postUrn (raw (js ''A''))"
    by (simp_all add: raw_def js_def)
  have e: "[] \<notin> postUrn ` set items45" by (auto simp: items45_def raw_def)
  have l: "length items45 = 45" by (simp add: items45_def)
  have u: "take 30 (map postUrn items45) = map (\<lambda>n. [of_nat (Suc n)]) [0..<30]"
    by (simp add: items45_def raw_def comp_def take_map)
  have r: "postUrn (raw (js ''A'')) = js ''A''" "postUrn (raw (js ''B'')) = js ''B''"
    "postUrl (raw (js ''A'')) = js ''https://www.linkedin.com/feed/update/A/''"
    "postUrl (raw (js ''B'')) = js ''https://www.linkedin.com/feed/update/B/''"
    "timeText (raw (js ''A'')) = js ''1w''" "timeText (raw (js ''B'')) = js ''1w''"
    by (simp_all add: raw_def js_def)
  from collection_dedup_window [where a = "raw (js ''A'')" and b = "raw (js ''B'')"
      and a' = "raw (js ''A'')\<lparr>timeText := js ''2w''\<rparr>" and items = items45] h items45_distinct e l
  have "all_posts [raw (js ''A''), raw (js ''A'')\<lparr>timeText := js ''2w''\<rparr>, raw (js ''B'')]
          = [\<lparr>ref_postUrn = postUrn (raw (js ''A'')), ref_postUrl = postUrl (raw (js ''A'')), ref_posted_at = timeText (raw (js ''A''))\<rparr>,
             \<lparr>ref_postUrn = postUrn (raw (js ''B'')), ref_postUrl = postUrl (raw (js ''B'')), ref_posted_at = timeText (raw (js ''B''))\<rparr>]"
    and "map ref_postUrn (all_posts items45) = take 30 (map postUrn items45)"
    and "length (all_posts items45) = 30"
    by blast+
  then show ?thesis unfolding u r by simp
qed

section \<open>Hex, blocks and padding\<close>

lemma unat8: "k < 256 \<Longrightarrow> unat (of_nat k :: 8 word) = k"
  by (simp add: unat_of_nat)

lemma unat_byte_less: "unat (b::byte) < 256"
  using unsigned_less [of b, where ?'a = nat] by simp

lemma unat_hex_digit: "n < 16 \<Longrightarrow> unat (hex_digit n) = (if n < 10 then 48 + n else 87 + n)"
  by (auto simp: hex_digit_def unat16 simp del: of_nat_add)

lemma unhex_hex_digit: "n < 16 \<Longrightarrow> unhex (hex_digit n) = Some n"
  by (simp add: unhex_def unat_hex_digit Let_def)

lemma hex_char_hex_digit: "n < 16 \<Longrightarrow> hex_char (hex_digit n)"
  by (simp add: hex_char_def unat_hex_digit Let_def)

lemma hex_encode_Cons:
  "hex_encode (b # bs) = hex_digit (unat b div 16) # hex_digit (unat b mod 16) # hex_encode bs"
  by (simp add: hex_encode_def)

lemma hex_decode_encode_append: "hex_decode (hex_encode bs @ r) = bs @ hex_decode r"
proof (induction bs)
  case Nil show ?case by (simp add: hex_encode_def)
next
  case (Cons b bs)
  have lt: "unat b div 16 < 16" using unat_byte_less [of b] by simp
  show ?case using Cons lt by (simp add: hex_encode_Cons unhex_hex_digit)
qed

lemma hex_decode_encode: "hex_decode (hex_encode bs) = bs"
  using hex_decode_encode_append [of bs "[]"] by simp

lemma hex_digit_not_colon: "n < 16 \<Longrightarrow> hex_digit n \<noteq> 0x3A"
proof
  assume "n < 16" "hex_digit n = 0x3A"
  then have "unat (hex_digit n) = 58" by simp
  with \<open>n < 16\<close> show False by (simp add: unat_hex_digit split: if_splits)
qed

lemma colon_notin_hex: "0x3A \<notin> set (hex_encode bs)"
proof (induction bs)
  case Nil show ?case by (simp add: hex_encode_def)
next
  case (Cons b bs)
  have lt: "unat b div 16 < 16" using unat_byte_less [of b] by simp
  show ?case using Cons lt hex_digit_not_colon [of "unat b div 16"] hex_digit_not_colon [of "unat b mod 16"]
    by (auto simp: hex_encode_Cons)
qed

lemma hex_decode_junk: "unhex j = None \<Longrightarrow> hex_decode (s @ j # junk) = hex_decode s"
proof (induction s rule: hex_decode.induct)
  case (1 a b rest)
  then show ?case by (simp split: option.splits)
qed (cases junk; simp split: option.splits)+

lemma valid_hex_encode: "valid_hex (hex_encode bs)"
proof (induction bs)
  case Nil
  show ?case by (simp add: valid_hex_def hex_encode_def)
next
  case (Cons b bs)
  have lt: "unat b div 16 < 16" using unat_byte_less [of b] by simp
  show ?case using Cons lt by (simp add: valid_hex_def hex_encode_Cons hex_char_hex_digit)
qed

lemma xor_cancel: "length a = length b \<Longrightarrow> xor_bytes (xor_bytes a b) b = a"
  by (induction a b rule: list_induct2) (auto simp: xor_bytes_def xor.assoc)

lemma length_xor: "length (xor_bytes a b) = min (length a) (length b)"
  by (simp add: xor_bytes_def)

lemma cbc_roundtrip:
  "block_cipher_ok bc \<Longrightarrow> length prev = 16 \<Longrightarrow> \<forall>p \<in> set ps. length p = 16 \<Longrightarrow>
   cbc_decrypt (dec_block bc) prev (cbc_encrypt (enc_block bc) prev ps) = ps"
proof (induction ps arbitrary: prev)
  case Nil show ?case by simp
next
  case (Cons p ps)
  have l: "length (xor_bytes p prev) = 16" using Cons.prems by (simp add: length_xor)
  then have e: "length (enc_block bc (xor_bytes p prev)) = 16" "dec_block bc (enc_block bc (xor_bytes p prev)) = xor_bytes p prev"
    using Cons.prems(1) by (auto simp: block_cipher_ok_def)
  show ?case using Cons.IH [OF Cons.prems(1) e(1)] Cons.prems e
    by (simp add: Let_def xor_cancel)
qed

lemma cbc_encrypt_lengths:
  "block_cipher_ok bc \<Longrightarrow> length prev = 16 \<Longrightarrow> \<forall>p \<in> set ps. length p = 16 \<Longrightarrow>
   \<forall>c \<in> set (cbc_encrypt (enc_block bc) prev ps). length c = 16"
proof (induction ps arbitrary: prev)
  case Nil show ?case by simp
next
  case (Cons p ps)
  have l: "length (xor_bytes p prev) = 16" using Cons.prems by (simp add: length_xor)
  then have e: "length (enc_block bc (xor_bytes p prev)) = 16"
    using Cons.prems(1) by (auto simp: block_cipher_ok_def)
  show ?case using Cons.IH [OF Cons.prems(1) e] Cons.prems e
    by (simp add: Let_def)
qed

lemma length_cbc_encrypt: "length (cbc_encrypt E prev ps) = length ps"
  by (induction ps arbitrary: prev) (auto simp: Let_def)

lemma blocks_Nil: "blocks [] = []"
  by (subst blocks.simps) simp

lemma blocks_nonempty: "m \<noteq> [] \<Longrightarrow> blocks m = take 16 m # blocks (drop 16 m)"
  by (subst blocks.simps) simp

lemma blocks_concat: "\<forall>b \<in> set bs. length b = 16 \<Longrightarrow> blocks (concat bs) = bs"
proof (induction bs)
  case Nil show ?case by (simp add: blocks_Nil)
next
  case (Cons b bs)
  then have "b \<noteq> []" by auto
  then have "blocks (b @ concat bs) = take 16 (b @ concat bs) # blocks (drop 16 (b @ concat bs))"
    by (intro blocks_nonempty) simp
  then show ?case using Cons by simp
qed

lemma concat_blocks: "concat (blocks m) = m"
proof (induction m rule: blocks.induct)
  case (1 m)
  show ?case
  proof (cases "m = []")
    case True then show ?thesis by (simp add: blocks_Nil)
  next
    case False
    have "blocks m = take 16 m # blocks (drop 16 m)" using False by (rule blocks_nonempty)
    then show ?thesis using 1 [OF False] by simp
  qed
qed

lemma blocks_lengths_mult: "length m = 16 * n \<Longrightarrow> \<forall>b \<in> set (blocks m). length b = 16"
proof (induction n arbitrary: m)
  case 0
  then show ?case by (simp add: blocks_Nil)
next
  case (Suc n)
  then have ne: "m \<noteq> []" by auto
  have "length (drop 16 m) = 16 * n" using Suc.prems by simp
  then have "\<forall>b \<in> set (blocks (drop 16 m)). length b = 16" by (rule Suc.IH)
  moreover have "length (take 16 m) = 16" using Suc.prems by simp
  ultimately show ?case unfolding blocks_nonempty [OF ne] by simp
qed

lemma blocks_lengths: "length m mod 16 = 0 \<Longrightarrow> \<forall>b \<in> set (blocks m). length b = 16"
proof -
  assume "length m mod 16 = 0"
  then have "16 dvd length m" by (simp add: dvd_eq_mod_eq_0)
  then obtain n where "length m = 16 * n" by (auto elim: dvdE)
  then show ?thesis by (rule blocks_lengths_mult)
qed

lemma length_concat_blocks16: "\<forall>c \<in> set cs. length c = 16 \<Longrightarrow> length (concat cs) = 16 * length cs"
  by (induction cs) auto

lemma pad_length: "length (pkcs7_pad m) mod 16 = 0"
proof -
  have "(length m + (16 - length m mod 16)) mod 16 = 0"
    by presburger
  then show ?thesis by (simp add: pkcs7_pad_def Let_def)
qed

lemma pad_nonempty: "pkcs7_pad m \<noteq> []"
  by (simp add: pkcs7_pad_def Let_def)

lemma unpad_pad: "pkcs7_unpad (pkcs7_pad m) = Inr m"
proof -
  define n where "n = 16 - length m mod 16"
  have n: "0 < n" "n \<le> 16" by (auto simp: n_def)
  have u: "unat (of_nat n :: byte) = n" using n by (simp add: unat_of_nat)
  have p: "pkcs7_pad m = m @ replicate n (of_nat n)" by (simp add: pkcs7_pad_def n_def Let_def)
  have l: "last (m @ replicate n (of_nat n :: byte)) = of_nat n" using n by simp
  show ?thesis unfolding p pkcs7_unpad_def using n by (simp add: l u Let_def)
qed

lemma decipher_cipher:
  assumes "block_cipher_ok bc" "length iv = 16"
  shows "\<exists>ct. cipher_all bc iv m = Inr ct \<and> decipher_all bc iv ct = Inr m"
proof -
  let ?ps = "blocks (pkcs7_pad m)"
  let ?cs = "cbc_encrypt (enc_block bc) iv ?ps"
  have ps: "\<forall>p \<in> set ?ps. length p = 16" by (rule blocks_lengths [OF pad_length])
  have cs: "\<forall>c \<in> set ?cs. length c = 16" by (rule cbc_encrypt_lengths [OF assms ps])
  have ne: "?ps \<noteq> []" using blocks_nonempty [OF pad_nonempty [of m]] by simp
  then have cne: "?cs \<noteq> []" using length_cbc_encrypt [of "enc_block bc" iv ?ps] by auto
  then obtain c cs' where ccs: "?cs = c # cs'" by (cases ?cs) auto
  with cs have "length c = 16" by auto
  then have ne2: "concat ?cs \<noteq> []" using ccs by auto
  have "length (concat ?cs) = 16 * length ?cs"
    by (rule length_concat_blocks16 [OF cs])
  then have m16: "length (concat ?cs) mod 16 = 0" by simp
  have "concat (cbc_decrypt (dec_block bc) iv (blocks (concat ?cs))) = pkcs7_pad m"
    by (simp add: blocks_concat [OF cs] cbc_roundtrip [OF assms ps] concat_blocks)
  then show ?thesis using assms ne2 m16
    by (simp add: cipher_all_def decipher_all_def unpad_pad)
qed

section \<open>UTF-8 round trip\<close>

lemma unat_unit_less: "unat (c :: 16 word) < 65536"
  using unsigned_less [of c, where ?'a = nat] by simp

lemma dec_enc1:
  assumes "n < 0x80"
  shows "utf8_decode (encode_cp n @ rest) = from_cp n @ utf8_decode rest"
proof -
  define b0 :: byte where "b0 = of_nat n"
  have u0: "unat b0 = n" unfolding b0_def using assms by (intro unat8) arith
  have e: "encode_cp n = [b0]" using assms by (simp add: encode_cp_def b0_def)
  have f: "from_cp n = [of_nat n]" using assms by (simp add: from_cp_def)
  show ?thesis unfolding e f using assms by (simp add: u0)
qed

lemma dec_enc2:
  assumes "0x80 \<le> n" "n < 0x800"
  shows "utf8_decode (encode_cp n @ rest) = from_cp n @ utf8_decode rest"
proof -
  define z q where "z = n mod 64" and "q = n div 64"
  have rel: "n = 64 * q + z" "z < 64" by (simp_all add: z_def q_def)
  define b0 :: byte where "b0 = of_nat (0xC0 + q)"
  define b1 :: byte where "b1 = of_nat (0x80 + z)"
  have u0: "unat b0 = 0xC0 + q" unfolding b0_def using assms rel by (intro unat8) linarith
  have u1: "unat b1 = 0x80 + z" unfolding b1_def using rel by (intro unat8) linarith
  have e: "encode_cp n = [b0, b1]"
    using assms by (simp add: encode_cp_def b0_def b1_def z_def q_def)
  have r: "(unat b0 - 0xC0) * 64 + (unat b1 - 0x80) = n" using rel by (simp add: u0 u1)
  have c0: "\<not> unat b0 < 0x80" "0xC2 \<le> unat b0" "unat b0 \<le> 0xDF"
    using assms rel unfolding u0 by linarith+
  have c1: "cont b1" using rel by (simp add: cont_def u1)
  have "utf8_decode (b0 # b1 # rest) = from_cp ((unat b0 - 0xC0) * 64 + (unat b1 - 0x80)) @ utf8_decode rest"
    using c0 c1 by simp
  then show ?thesis unfolding e r by simp
qed

lemma dec_enc3:
  assumes "0x800 \<le> n" "n < 0x10000" "n < 0xD800 \<or> 0xDFFF < n"
  shows "utf8_decode (encode_cp n @ rest) = from_cp n @ utf8_decode rest"
proof -
  define z q x y where "z = n mod 64" and "q = n div 64" and "x = q mod 64" and "y = q div 64"
  have rel: "n = 64 * q + z" "z < 64" "q = 64 * y + x" "x < 64"
    by (simp_all add: z_def q_def x_def y_def)
  have y: "n div 4096 = y" unfolding y_def q_def by (simp add: div_mult2_eq)
  define b0 :: byte where "b0 = of_nat (0xE0 + y)"
  define b1 :: byte where "b1 = of_nat (0x80 + x)"
  define b2 :: byte where "b2 = of_nat (0x80 + z)"
  have u0: "unat b0 = 0xE0 + y" unfolding b0_def using assms rel by (intro unat8) linarith
  have u1: "unat b1 = 0x80 + x" unfolding b1_def using rel by (intro unat8) linarith
  have u2: "unat b2 = 0x80 + z" unfolding b2_def using rel by (intro unat8) linarith
  have e: "encode_cp n = [b0, b1, b2]"
    using assms by (simp add: encode_cp_def b0_def b1_def b2_def y x_def q_def z_def)
  have r: "(unat b0 - 0xE0) * 4096 + (unat b1 - 0x80) * 64 + (unat b2 - 0x80) = n"
    unfolding u0 u1 u2 using rel by simp
  have c0: "\<not> unat b0 < 0x80" "\<not> (0xC2 \<le> unat b0 \<and> unat b0 \<le> 0xDF)" "0xE0 \<le> unat b0" "unat b0 \<le> 0xEF"
    using assms rel unfolding u0 by linarith+
  have s1: "unat b0 = 0xE0 \<Longrightarrow> 0xA0 \<le> unat b1" using assms rel unfolding u0 u1 by linarith
  have s2: "unat b0 = 0xED \<Longrightarrow> unat b1 \<le> 0x9F" using assms rel unfolding u0 u1 by linarith
  have s3: "0x80 \<le> unat b1" "unat b1 \<le> 0xBF" using rel unfolding u1 by linarith+
  have c1: "second_ok b0 b1" using s1 s2 s3 c0 by (auto simp: second_ok_def Let_def)
  have c2: "cont b2" using rel by (simp add: cont_def u2)
  have "utf8_decode (b0 # b1 # b2 # rest) =
      from_cp ((unat b0 - 0xE0) * 4096 + (unat b1 - 0x80) * 64 + (unat b2 - 0x80)) @ utf8_decode rest"
    using c0 c1 c2 by simp
  then show ?thesis unfolding e r by simp
qed

lemma dec_enc4:
  assumes "0x10000 \<le> n" "n < 0x110000"
  shows "utf8_decode (encode_cp n @ rest) = from_cp n @ utf8_decode rest"
proof -
  define z q x y v w where "z = n mod 64" and "q = n div 64" and "x = q mod 64" and "y = q div 64"
    and "v = y mod 64" and "w = y div 64"
  have rel: "n = 64 * q + z" "z < 64" "q = 64 * y + x" "x < 64" "y = 64 * w + v" "v < 64"
    by (simp_all add: z_def q_def x_def y_def v_def w_def)
  have y: "n div 4096 = y" unfolding y_def q_def by (simp add: div_mult2_eq)
  have w: "n div 262144 = w" unfolding w_def y_def q_def by (simp add: div_mult2_eq)
  define b0 :: byte where "b0 = of_nat (0xF0 + w)"
  define b1 :: byte where "b1 = of_nat (0x80 + v)"
  define b2 :: byte where "b2 = of_nat (0x80 + x)"
  define b3 :: byte where "b3 = of_nat (0x80 + z)"
  have u0: "unat b0 = 0xF0 + w" unfolding b0_def using assms rel by (intro unat8) linarith
  have u1: "unat b1 = 0x80 + v" unfolding b1_def using rel by (intro unat8) linarith
  have u2: "unat b2 = 0x80 + x" unfolding b2_def using rel by (intro unat8) linarith
  have u3: "unat b3 = 0x80 + z" unfolding b3_def using rel by (intro unat8) linarith
  have e: "encode_cp n = [b0, b1, b2, b3]"
    using assms by (simp add: encode_cp_def b0_def b1_def b2_def b3_def w y v_def x_def q_def z_def)
  have r: "(unat b0 - 0xF0) * 262144 + (unat b1 - 0x80) * 4096 + (unat b2 - 0x80) * 64 + (unat b3 - 0x80) = n"
    unfolding u0 u1 u2 u3 using rel by simp
  have c0: "\<not> unat b0 < 0x80" "\<not> (0xC2 \<le> unat b0 \<and> unat b0 \<le> 0xDF)" "\<not> (0xE0 \<le> unat b0 \<and> unat b0 \<le> 0xEF)"
      "0xF0 \<le> unat b0" "unat b0 \<le> 0xF4"
    using assms rel unfolding u0 by linarith+
  have s1: "unat b0 = 0xF0 \<Longrightarrow> 0x90 \<le> unat b1" using assms rel unfolding u0 u1 by linarith
  have s2: "unat b0 = 0xF4 \<Longrightarrow> unat b1 \<le> 0x8F" using assms rel unfolding u0 u1 by linarith
  have s3: "0x80 \<le> unat b1" "unat b1 \<le> 0xBF" using rel unfolding u1 by linarith+
  have c1: "second_ok b0 b1" using s1 s2 s3 c0 by (auto simp: second_ok_def Let_def)
  have c2: "cont b2" using rel by (simp add: cont_def u2)
  have c3: "cont b3" using rel by (simp add: cont_def u3)
  have "utf8_decode (b0 # b1 # b2 # b3 # rest) =
      from_cp ((unat b0 - 0xF0) * 262144 + (unat b1 - 0x80) * 4096 + (unat b2 - 0x80) * 64 + (unat b3 - 0x80))
        @ utf8_decode rest"
    using c0 c1 c2 c3 by simp
  then show ?thesis unfolding e r by simp
qed

lemma dec_enc_cp:
  assumes "n < 0x110000" "n < 0xD800 \<or> 0xDFFF < n"
  shows "utf8_decode (encode_cp n @ rest) = from_cp n @ utf8_decode rest"
proof -
  consider "n < 0x80" | "0x80 \<le> n" "n < 0x800" | "0x800 \<le> n" "n < 0x10000" | "0x10000 \<le> n"
    by linarith
  then show ?thesis
  proof cases
    case 1 then show ?thesis by (rule dec_enc1)
  next
    case 2 then show ?thesis by (rule dec_enc2)
  next
    case 3 then show ?thesis using assms(2) by (intro dec_enc3)
  next
    case 4 then show ?thesis using assms(1) by (intro dec_enc4)
  qed
qed

lemma from_cp_unit: "from_cp (unat (c :: 16 word)) = [c]"
  using unat_unit_less [of c] by (simp add: from_cp_def)

lemma from_cp_pair:
  assumes "is_high c" "is_low d"
  shows "from_cp (0x10000 + (unat c - 0xD800) * 1024 + (unat d - 0xDC00)) = [c, d]"
proof -
  define a b where "a = unat c - 0xD800" and "b = unat d - 0xDC00"
  have ab: "0xD800 + a = unat c" "0xDC00 + b = unat d" "b < 1024"
    using assms unfolding is_high_def is_low_def a_def b_def by linarith+
  have dm: "(a * 1024 + b) div 1024 = a" "(a * 1024 + b) mod 1024 = b" using ab(3) by simp_all
  have "from_cp (0x10000 + a * 1024 + b) = [of_nat (0xD800 + a), of_nat (0xDC00 + b)]"
    using dm by (simp add: from_cp_def add.assoc del: of_nat_add)
  then show ?thesis unfolding ab unfolding a_def b_def by simp
qed

lemma pair_range:
  assumes "is_high c" "is_low d"
  shows "0x10000 \<le> 0x10000 + (unat c - 0xD800) * 1024 + (unat d - 0xDC00)"
    "0x10000 + (unat c - 0xD800) * 1024 + (unat d - 0xDC00) < 0x110000"
  using assms unfolding is_high_def is_low_def by linarith+

lemma utf8_roundtrip:
  "well_formed s \<Longrightarrow> utf8_decode (utf8_encode s) = s"
proof (induction s rule: well_formed.induct)
  case 1
  show ?case by simp
next
  case (2 c)
  then have "unat c < 0xD800 \<or> 0xDFFF < unat c" by (auto simp: is_high_def is_low_def)
  from dec_enc_cp [OF _ this, of "[]"] unat_unit_less [of c] 2 show ?case
    by (simp add: from_cp_unit)
next
  case (3 c d cs)
  show ?case
  proof (cases "is_high c")
    case True
    with 3 have d: "is_low d" and wf: "well_formed cs" by auto
    have "utf8_decode (utf8_encode (c # d # cs)) = [c, d] @ utf8_decode (utf8_encode cs)"
      using True d dec_enc4 [OF pair_range [OF True d]] by (simp add: from_cp_pair)
    then show ?thesis using 3(1) [OF True] wf by simp
  next
    case False
    with 3 have nl: "\<not> is_low c" and wf: "well_formed (d # cs)" by auto
    have r: "unat c < 0xD800 \<or> 0xDFFF < unat c" using False nl by (auto simp: is_high_def is_low_def)
    have "utf8_decode (utf8_encode (c # d # cs)) = [c] @ utf8_decode (utf8_encode (d # cs))"
      using False nl dec_enc_cp [OF _ r, of "utf8_encode (d # cs)"] unat_unit_less [of c]
      by (simp add: from_cp_unit)
    then show ?thesis using 3(2) [OF False] wf by simp
  qed
qed

lemma lone_surrogate: "utf8_decode (utf8_encode [0xD800]) = [0xFFFD]"
  by (simp add: is_high_def is_low_def encode_cp_def from_cp_def cont_def second_ok_def)

section \<open>\<^verbatim>\<open>encrypt\<close> and \<^verbatim>\<open>decrypt\<close>\<close>

lemma decrypt_encrypt_bytes:
  assumes "block_cipher_ok bc" "length iv = 16"
  shows "\<exists>r. encrypt bc iv s = Inr r \<and> decrypt bc r = Inr (utf8_decode (utf8_encode s))"
proof -
  from decipher_cipher [OF assms, of "utf8_encode s"] obtain ct where
    ct: "cipher_all bc iv (utf8_encode s) = Inr ct" "decipher_all bc iv ct = Inr (utf8_encode s)" by blast
  have ivne: "hex_encode iv \<noteq> []" using assms(2) by (cases iv) (auto simp: hex_encode_def)
  have sp: "js_split (js '':'') (hex_encode iv @ js '':'' @ hex_encode ct) = [hex_encode iv, hex_encode ct]"
    using split_two [OF colon_notin_hex colon_notin_hex, of iv ct] by (simp add: js_colon)
  show ?thesis using ct ivne by (simp add: encrypt_def decrypt_def sp hex_decode_encode)
qed

lemma decrypt_parts:
  "decrypt bc text =
     (let ivPart = takeWhile (\<lambda>x. x \<noteq> 0x3A) text;
          payload = drop (Suc (length ivPart)) text
      in if ivPart = [] then Inl InvalidFormat
         else case decipher_all bc (hex_decode ivPart) (hex_decode payload) of
                Inl e \<Rightarrow> Inl e
              | Inr decrypted \<Rightarrow> Inr (utf8_decode decrypted))"
proof (cases "0x3A \<in> set text")
  case False
  then have t: "takeWhile (\<lambda>x. x \<noteq> 0x3A) text = text" by (auto intro: takeWhile_eq_all_conv [THEN iffD2])
  have "js_split (js '':'') text = [text]"
    using split_from_skip [OF False, of "[]" "[]"] by (simp add: js_split_def js_colon)
  then show ?thesis by (simp add: decrypt_def t Let_def)
next
  case True
  then obtain a r where tx: "text = a @ 0x3A # r" and a: "0x3A \<notin> set a"
    by (auto dest: split_list_first)
  have t: "takeWhile (\<lambda>x. x \<noteq> 0x3A) text = a" unfolding tx using a
    by (rule takeWhile_upto)
  have sp: "js_split (js '':'') text = a # split_from [0x3A] [] r"
    unfolding tx js_split_def js_colon using split_from_skip [OF a, of "[]" "0x3A # r"] by simp
  have j: "js_join (js '':'') (split_from [0x3A] [] r) = r"
    unfolding js_colon using join_split [of "0x3A" "[]" r] by simp
  have d: "drop (Suc (length a)) text = r" unfolding tx by simp
  show ?thesis unfolding decrypt_def sp t by (simp add: Let_def j d)
qed

lemma decrypt_ignores_junk:
  assumes "0x3A \<in> set text" "unhex j = None"
  shows "decrypt bc (text @ j # junk) = decrypt bc text"
proof -
  from assms(1) obtain a r where tx: "text = a @ 0x3A # r" and a: "0x3A \<notin> set a"
    by (auto dest: split_list_first)
  have t1: "takeWhile (\<lambda>x. x \<noteq> 0x3A) text = a" unfolding tx using a by (rule takeWhile_upto)
  have t2: "takeWhile (\<lambda>x. x \<noteq> 0x3A) (text @ j # junk) = a" unfolding tx
    using takeWhile_upto [OF a, of "r @ j # junk"] by simp
  have d1: "drop (Suc (length a)) text = r" unfolding tx by simp
  have d2: "drop (Suc (length a)) (text @ j # junk) = r @ j # junk" unfolding tx by simp
  show ?thesis unfolding decrypt_parts Let_def t1 t2 d1 d2 hex_decode_junk [OF assms(2)] ..
qed

lemma decrypt_no_delimiter: "0x3A \<notin> set text \<Longrightarrow> \<exists>e. decrypt bc text = Inl e"
proof -
  assume "0x3A \<notin> set text"
  then have t: "takeWhile (\<lambda>x. x \<noteq> 0x3A) text = text" by (auto intro: takeWhile_eq_all_conv [THEN iffD2])
  show ?thesis unfolding decrypt_parts t by (simp add: Let_def decipher_all_def)
qed

lemma decrypt_bad_iv:
  "length (hex_decode (takeWhile (\<lambda>x. x \<noteq> 0x3A) text)) \<noteq> 16 \<Longrightarrow> \<exists>e. decrypt bc text = Inl e"
  unfolding decrypt_parts by (simp add: Let_def decipher_all_def)

lemma decrypt_bad_payload:
  "length (hex_decode (drop (Suc (length (takeWhile (\<lambda>x. x \<noteq> 0x3A) text))) text)) mod 16 \<noteq> 0
     \<or> hex_decode (drop (Suc (length (takeWhile (\<lambda>x. x \<noteq> 0x3A) text))) text) = []
   \<Longrightarrow> \<exists>e. decrypt bc text = Inl e"
  unfolding decrypt_parts by (auto simp: Let_def decipher_all_def)

lemma decrypt_empty_iv:
  "takeWhile (\<lambda>x. x \<noteq> 0x3A) text = [] \<Longrightarrow> decrypt bc text = Inl InvalidFormat"
  unfolding decrypt_parts by (simp add: Let_def)

lemma shift_cipher_ok: "block_cipher_ok shift_cipher"
  by (simp add: block_cipher_ok_def shift_cipher_def comp_def)

lemma two_part_hex_record: "two_part_hex (hex_encode iv @ js '':'' @ hex_encode ct)"
  using split_two [OF colon_notin_hex colon_notin_hex, of iv ct]
  by (simp add: two_part_hex_def js_colon valid_hex_encode)

subsection \<open>The stored record \<open>demo_record\<close>\<close>

lemma blocks16:
  "blocks [a0, a1, a2, a3, a4, a5, a6, a7, a8, a9, a10, a11, a12, a13, a14, a15]
     = [[a0, a1, a2, a3, a4, a5, a6, a7, a8, a9, a10, a11, a12, a13, a14, a15]]"
  by (simp add: blocks_nonempty blocks_Nil)

lemma replicate_numeral: "replicate (numeral k) x = x # replicate (pred_numeral k) x"
  by (simp add: numeral_eq_Suc)

lemma demo_iv_hex: "hex_decode (js ''00000000000000000000000000000000'') = zero_iv"
  by (simp add: js_def unhex_def zero_iv_def)

lemma demo_payload_hex:
  "hex_decode (js ''42520f0f0f0f0f0f0f0f0f0f0f0f0f0f'')
     = [0x42, 0x52, 15, 15, 15, 15, 15, 15, 15, 15, 15, 15, 15, 15, 15, 15]"
  by (simp add: js_def unhex_def)

lemma demo_split:
  "js_split (js '':'') demo_record
     = [js ''00000000000000000000000000000000'', js ''42520f0f0f0f0f0f0f0f0f0f0f0f0f0f'']"
  by (simp add: demo_record_def js_def js_split_def)

lemma demo_decipher:
  "decipher_all shift_cipher zero_iv [0x42, 0x52, 15, 15, 15, 15, 15, 15, 15, 15, 15, 15, 15, 15, 15, 15]
     = Inr [0x41, 0x51]"
  by (simp add: decipher_all_def zero_iv_def blocks16 xor_bytes_def shift_cipher_def
        pkcs7_unpad_def replicate_numeral)

lemma demo_decrypt: "decrypt shift_cipher demo_record = Inr (js ''AQ'')"
proof -
  have ne: "js ''00000000000000000000000000000000'' \<noteq> []" by (simp add: js_def)
  have "utf8_decode [0x41, 0x51] = js ''AQ''" by (simp add: js_def)
  then show ?thesis
    unfolding decrypt_def demo_split by (simp add: ne demo_iv_hex demo_payload_hex demo_decipher)
qed

lemma colon_in_demo: "0x3A \<in> set demo_record"
  by (simp add: demo_record_def js_def)

lemma decrypt_not_valid_record: "decrypt bc (js ''not-a-valid-record'') = Inl InvalidIV"
  by (simp add: decrypt_def js_split_def js_def unhex_def decipher_all_def)

lemma decrypt_deadbeef: "decrypt bc (js ''deadbeef'') = Inl InvalidIV"
  by (simp add: decrypt_def js_split_def js_def unhex_def decipher_all_def)

lemma unhex_low_byte: "unhex 0x130 = Some 0" "\<not> hex_char 0x130" "unhex 0x7A = None" "\<not> hex_char 0x7A"
  by (simp_all add: unhex_def hex_char_def)

lemma cipher_of_ok: "block_cipher_ok (cipher_of k)"
  using cipher_of [of k] by simp

lemma length_randomBytes16: "length (randomBytes16 source) = 16"
  by (simp add: randomBytes16_def)

lemma junk_shape: "\<not> two_part_hex (hex_encode iv @ js '':'' @ hex_encode ct @ js ''zz'')"
proof -
  have z: "js ''zz'' = [0x7A, 0x7A]" by (simp add: js_def)
  have "0x3A \<notin> set (hex_encode ct @ js ''zz'')" using colon_notin_hex [of ct] by (simp add: z)
  from split_two [OF colon_notin_hex this, of iv]
  have "js_split (js '':'') (hex_encode iv @ js '':'' @ hex_encode ct @ js ''zz'')
          = [hex_encode iv, hex_encode ct @ js ''zz'']" by (simp add: js_colon)
  then show ?thesis by (simp add: two_part_hex_def valid_hex_def z unhex_low_byte)
qed

lemma junk_decrypts:
  "decrypt bc (hex_encode iv @ js '':'' @ hex_encode ct @ js ''zz'')
     = decrypt bc (hex_encode iv @ js '':'' @ hex_encode ct)"
proof -
  have z: "js ''zz'' = [0x7A, 0x7A]" by (simp add: js_def)
  have c: "0x3A \<in> set (hex_encode iv @ js '':'' @ hex_encode ct)" by (simp add: js_colon)
  from decrypt_ignores_junk [OF c unhex_low_byte(3), of bc "[0x7A]"] show ?thesis by (simp add: z)
qed

text \<open>
  \<^bold>\<open>C3, as the code has it.\<close> \<^verbatim>\<open>decrypt\<close> fails when the delimiter is absent, when
  nothing stands before the first delimiter (its own check, the only one), when the
  part before the first delimiter does not decode to 16 bytes, and when the rest
  decodes to nothing or not to whole blocks; so it fails on \<^verbatim>\<open>not-a-valid-record\<close>
  and on \<^verbatim>\<open>deadbeef\<close>. It does not check that the two parts are hex: decoding reads
  the low byte of each code unit (U+0130 is not a hex digit and decodes as \<^verbatim>\<open>0\<close>) and
  stops at the first pair that is not two hex digits, so a text with a delimiter,
  followed by a code unit whose low byte is no hex digit and anything after it,
  decrypts as the text alone does. It makes one attempt and alters nothing: the
  result is what deciphering the decoding of the part before the first delimiter and
  the decoding of the rest gives, the error of that when it fails.
\<close>

theorem decrypt_rejects_malformed:
  "(0x3A \<notin> set inp \<longrightarrow> (\<exists>e. decrypt bc inp = Inl e))
   \<and> (takeWhile (\<lambda>c. c \<noteq> 0x3A) inp = [] \<longrightarrow> decrypt bc inp = Inl InvalidFormat)
   \<and> (length (hex_decode (takeWhile (\<lambda>c. c \<noteq> 0x3A) inp)) \<noteq> 16 \<longrightarrow> (\<exists>e. decrypt bc inp = Inl e))
   \<and> (length (hex_decode (drop (Suc (length (takeWhile (\<lambda>c. c \<noteq> 0x3A) inp))) inp)) mod 16 \<noteq> 0
        \<or> hex_decode (drop (Suc (length (takeWhile (\<lambda>c. c \<noteq> 0x3A) inp))) inp) = []
        \<longrightarrow> (\<exists>e. decrypt bc inp = Inl e))
   \<and> decrypt bc (js ''not-a-valid-record'') = Inl InvalidIV
   \<and> decrypt bc (js ''deadbeef'') = Inl InvalidIV
   \<and> (0x3A \<in> set inp \<longrightarrow> unhex j = None \<longrightarrow> decrypt bc (inp @ j # junk) = decrypt bc inp)
   \<and> unhex 0x130 = Some 0 \<and> \<not> hex_char 0x130
   \<and> decrypt bc inp =
       (if takeWhile (\<lambda>c. c \<noteq> 0x3A) inp = [] then Inl InvalidFormat
        else case decipher_all bc (hex_decode (takeWhile (\<lambda>c. c \<noteq> 0x3A) inp))
                    (hex_decode (drop (Suc (length (takeWhile (\<lambda>c. c \<noteq> 0x3A) inp))) inp)) of
               Inl e \<Rightarrow> Inl e
             | Inr decrypted \<Rightarrow> Inr (utf8_decode decrypted))"
proof -
  have "decrypt bc inp =
       (if takeWhile (\<lambda>c. c \<noteq> 0x3A) inp = [] then Inl InvalidFormat
        else case decipher_all bc (hex_decode (takeWhile (\<lambda>c. c \<noteq> 0x3A) inp))
                    (hex_decode (drop (Suc (length (takeWhile (\<lambda>c. c \<noteq> 0x3A) inp))) inp)) of
               Inl e \<Rightarrow> Inl e
             | Inr decrypted \<Rightarrow> Inr (utf8_decode decrypted))"
    using decrypt_parts [of bc inp] by (simp add: Let_def)
  then show ?thesis
    using decrypt_no_delimiter [of inp bc] decrypt_empty_iv [of inp bc] decrypt_bad_iv [of inp bc]
      decrypt_bad_payload [of inp bc] decrypt_ignores_junk [of inp j bc junk]
      decrypt_not_valid_record [of bc] decrypt_deadbeef [of bc] unhex_low_byte(1,2)
    by blast
qed

theorem decrypt_rejects_malformed_witness:
  "0x3A \<notin> set (js ''deadbeef'') \<and> (\<exists>e. decrypt shift_cipher (js ''deadbeef'') = Inl e)
   \<and> decrypt shift_cipher (js '':00'') = Inl InvalidFormat
   \<and> 0x3A \<in> set demo_record \<and> unhex 0x7A = None
   \<and> decrypt shift_cipher (demo_record @ 0x7A # js ''z'') = decrypt shift_cipher demo_record"
proof -
  have a: "0x3A \<notin> set (js ''deadbeef'')" by (simp add: js_def)
  have b: "takeWhile (\<lambda>c. c \<noteq> 0x3A) (js '':00'') = []" by (simp add: js_def)
  have c: "unhex 0x7A = None" by (simp add: unhex_def)
  from decrypt_rejects_malformed [where inp = "js ''deadbeef''" and bc = shift_cipher] a
  have 1: "\<exists>e. decrypt shift_cipher (js ''deadbeef'') = Inl e" by blast
  from decrypt_rejects_malformed [where inp = "js '':00''" and bc = shift_cipher] b
  have 2: "decrypt shift_cipher (js '':00'') = Inl InvalidFormat" by blast
  from decrypt_rejects_malformed [where inp = demo_record and bc = shift_cipher and j = "0x7A"
        and junk = "js ''z''"] c colon_in_demo
  have 3: "decrypt shift_cipher (demo_record @ 0x7A # js ''z'') = decrypt shift_cipher demo_record"
    by blast
  show ?thesis using a c colon_in_demo 1 2 3 by blast
qed

text \<open>
  C3 as it is written fails, whatever the key: for every invertible block cipher,
  every 16 bytes of \<^verbatim>\<open>randomBytes\<close> and every text, the record that \<^verbatim>\<open>encrypt\<close> returns,
  followed by \<^verbatim>\<open>zz\<close>, has a second part that is not hex, and \<^verbatim>\<open>decrypt\<close> returns what it
  returns for the record, which is the text that was encrypted.
\<close>

theorem decrypt_accepts_trailing_junk:
  "\<forall>k source s.
     case encrypt (cipher_of k) (randomBytes16 source) s of
       Inl e \<Rightarrow> False
     | Inr r \<Rightarrow> \<not> two_part_hex (r @ js ''zz'')
               \<and> decrypt (cipher_of k) (r @ js ''zz'') = decrypt (cipher_of k) r
               \<and> decrypt (cipher_of k) (r @ js ''zz'') = Inr (utf8_decode (utf8_encode s))"
proof (intro allI)
  fix k source s
  have "\<exists>ct. cipher_all (cipher_of k) (randomBytes16 source) (utf8_encode s) = Inr ct
           \<and> decipher_all (cipher_of k) (randomBytes16 source) ct = Inr (utf8_encode s)"
    by (rule decipher_cipher [OF cipher_of_ok length_randomBytes16])
  then obtain ct where
    ct: "cipher_all (cipher_of k) (randomBytes16 source) (utf8_encode s) = Inr ct"
    by blast
  then have e: "encrypt (cipher_of k) (randomBytes16 source) s
      = Inr (hex_encode (randomBytes16 source) @ js '':'' @ hex_encode ct)"
    by (simp add: encrypt_def)
  have "\<exists>r. encrypt (cipher_of k) (randomBytes16 source) s = Inr r
          \<and> decrypt (cipher_of k) r = Inr (utf8_decode (utf8_encode s))"
    by (rule decrypt_encrypt_bytes [OF cipher_of_ok length_randomBytes16])
  with e
  have d: "decrypt (cipher_of k) (hex_encode (randomBytes16 source) @ js '':'' @ hex_encode ct)
      = Inr (utf8_decode (utf8_encode s))" by simp
  show "case encrypt (cipher_of k) (randomBytes16 source) s of
       Inl e \<Rightarrow> False
     | Inr r \<Rightarrow> \<not> two_part_hex (r @ js ''zz'')
               \<and> decrypt (cipher_of k) (r @ js ''zz'') = decrypt (cipher_of k) r
               \<and> decrypt (cipher_of k) (r @ js ''zz'') = Inr (utf8_decode (utf8_encode s))"
    using junk_shape [of "randomBytes16 source" ct]
      junk_decrypts [of "cipher_of k" "randomBytes16 source" ct] d
    by (simp add: e)
qed

text \<open>
  \<^bold>\<open>C4, as the code has it.\<close> For every string without unpaired surrogates, the
  empty string and strings outside ASCII among them, and every 16-byte IV,
  \<^verbatim>\<open>encrypt\<close> returns the hex of the IV, one \<^verbatim>\<open>:\<close> and the hex of the CBC ciphertext,
  and \<^verbatim>\<open>decrypt\<close> of that record returns the string.
\<close>

theorem decrypt_encrypt_roundtrip:
  assumes "block_cipher_ok bc" "length iv = 16" "well_formed s"
  shows "\<exists>ct. cipher_all bc iv (utf8_encode s) = Inr ct
           \<and> encrypt bc iv s = Inr (hex_encode iv @ js '':'' @ hex_encode ct)
           \<and> two_part_hex (hex_encode iv @ js '':'' @ hex_encode ct)
           \<and> decrypt bc (hex_encode iv @ js '':'' @ hex_encode ct) = Inr s"
proof -
  from decipher_cipher [OF assms(1,2), of "utf8_encode s"] obtain ct where
    ct: "cipher_all bc iv (utf8_encode s) = Inr ct" by blast
  then have e: "encrypt bc iv s = Inr (hex_encode iv @ js '':'' @ hex_encode ct)"
    by (simp add: encrypt_def)
  from decrypt_encrypt_bytes [OF assms(1,2), of s] e
  have "decrypt bc (hex_encode iv @ js '':'' @ hex_encode ct) = Inr (utf8_decode (utf8_encode s))"
    by auto
  then show ?thesis using ct e two_part_hex_record [of iv ct] utf8_roundtrip [OF assms(3)] by auto
qed

theorem decrypt_encrypt_roundtrip_witness:
  "block_cipher_ok shift_cipher \<and> length zero_iv = 16
   \<and> well_formed [] \<and> well_formed [0x68, 0xE9, 0x20AC, 0xD83D, 0xDE00]
   \<and> (\<exists>ct. encrypt shift_cipher zero_iv [] = Inr (hex_encode zero_iv @ js '':'' @ hex_encode ct)
         \<and> decrypt shift_cipher (hex_encode zero_iv @ js '':'' @ hex_encode ct) = Inr [])
   \<and> (\<exists>ct. encrypt shift_cipher zero_iv [0x68, 0xE9, 0x20AC, 0xD83D, 0xDE00]
               = Inr (hex_encode zero_iv @ js '':'' @ hex_encode ct)
         \<and> decrypt shift_cipher (hex_encode zero_iv @ js '':'' @ hex_encode ct)
               = Inr [0x68, 0xE9, 0x20AC, 0xD83D, 0xDE00])"
proof -
  have l: "length zero_iv = 16" by (simp add: zero_iv_def)
  have w: "well_formed []" "well_formed [0x68, 0xE9, 0x20AC, 0xD83D, 0xDE00]"
    by (simp_all add: is_high_def is_low_def)
  show ?thesis
    using decrypt_encrypt_roundtrip [OF shift_cipher_ok l w(1)]
      decrypt_encrypt_roundtrip [OF shift_cipher_ok l w(2)] shift_cipher_ok l w
    by blast
qed

text \<open>
  C4 as it is written fails on a string that is one unpaired surrogate:
  the string is encrypted as U+FFFD, and that is what \<^verbatim>\<open>decrypt\<close> returns.
\<close>

theorem lone_surrogate_not_restored:
  "(case encrypt shift_cipher zero_iv [0xD800] of
      Inl e \<Rightarrow> False
    | Inr r \<Rightarrow> decrypt shift_cipher r = Inr [0xFFFD] \<and> decrypt shift_cipher r \<noteq> Inr [0xD800])"
proof -
  have l: "length zero_iv = 16" by (simp add: zero_iv_def)
  from decrypt_encrypt_bytes [OF shift_cipher_ok l, of "[0xD800]"] obtain r where
    "encrypt shift_cipher zero_iv [0xD800] = Inr r" "decrypt shift_cipher r = Inr [0xFFFD]"
    unfolding lone_surrogate by blast
  then show ?thesis by simp
qed

section \<open>Polling the handoff artifact\<close>

lemma GET_absent_stays:
  "tmp_files st p = None \<Longrightarrow> tmp_files (snd (GET parse bc req st)) p = None"
  by (auto simp: GET_def Let_def split: option.splits sum.splits)

lemma GET_waiting:
  "sessionId req = Some sid \<Longrightarrow> sid \<noteq> [] \<Longrightarrow> tmp_files st (resultPath sid) = None \<Longrightarrow>
   GET parse bc req st = (waiting, st)"
  by (simp add: GET_def)

lemma polls_Cons:
  "polls parse bc (req # reqs) st =
     (fst (GET parse bc req st) # fst (polls parse bc reqs (snd (GET parse bc req st))),
      snd (polls parse bc reqs (snd (GET parse bc req st))))"
  by (simp add: Let_def case_prod_beta)

lemma polls_absent_waiting:
  "tmp_files st (resultPath sid) = None \<Longrightarrow> sid \<noteq> [] \<Longrightarrow> i < length reqs \<Longrightarrow>
   sessionId (reqs ! i) = Some sid \<Longrightarrow> fst (polls parse bc reqs st) ! i = waiting"
proof (induction reqs arbitrary: st i)
  case Nil
  then show ?case by simp
next
  case (Cons req reqs)
  have absent: "tmp_files (snd (GET parse bc req st)) (resultPath sid) = None"
    by (rule GET_absent_stays [OF Cons.prems(1)])
  show ?case
  proof (cases i)
    case 0
    with Cons.prems have "GET parse bc req st = (waiting, st)" by (simp add: GET_waiting)
    with 0 show ?thesis by (simp add: polls_Cons del: polls.simps)
  next
    case (Suc j)
    with Cons.prems have "fst (polls parse bc reqs (snd (GET parse bc req st))) ! j = waiting"
      by (intro Cons.IH [OF absent]) auto
    with Suc show ?thesis by (simp add: polls_Cons del: polls.simps)
  qed
qed

lemma GET_consumes:
  "sessionId req = Some sid \<Longrightarrow> sid \<noteq> [] \<Longrightarrow> tmp_files st (resultPath sid) = Some data \<Longrightarrow>
   parse data = Some result \<Longrightarrow> tmp_files (snd (GET parse bc req st)) (resultPath sid) = None"
  by (auto simp: GET_def Let_def split: option.splits sum.splits)

lemma polls_same_id_waiting:
  "tmp_files st (resultPath sid) = None \<Longrightarrow> sid \<noteq> [] \<Longrightarrow> \<forall>r \<in> set reqs. sessionId r = Some sid \<Longrightarrow>
   polls parse bc reqs st = (replicate (length reqs) waiting, st)"
  by (induction reqs) (auto simp: GET_waiting)

lemma GET_unparseable:
  "sessionId req = Some sid \<Longrightarrow> sid \<noteq> [] \<Longrightarrow> tmp_files st (resultPath sid) = Some data \<Longrightarrow>
   parse data = None \<Longrightarrow> GET parse bc req st = (failed_to_read, st)"
  by (simp add: GET_def)

lemma polls_unparseable:
  "sid \<noteq> [] \<Longrightarrow> tmp_files st (resultPath sid) = Some data \<Longrightarrow> parse data = None \<Longrightarrow>
   \<forall>r \<in> set reqs. sessionId r = Some sid \<Longrightarrow>
   polls parse bc reqs st = (replicate (length reqs) failed_to_read, st)"
  by (induction reqs) (auto simp: GET_unparseable)

lemma GET_failed_save:
  assumes "sessionId req = Some sid" "sid \<noteq> []"
    and "tmp_files st (resultPath sid) = Some data" "parse data = Some result"
    and "get_prop result (js ''status'') = Some (JStr (js ''success''))"
    and "save_cookie bc req result (linkedin_accounts st) = Inl e"
  shows "GET parse bc req st = (failed_to_save, st\<lparr>tmp_files := (tmp_files st)(resultPath sid := None)\<rparr>)"
proof -
  have "result \<noteq> JNull" using assms(5) by auto
  then show ?thesis using assms by (simp add: GET_def Let_def)
qed

lemma js_s1: "js ''s1'' \<noteq> []" "js ''s2'' \<noteq> js ''s1''"
  by (simp_all add: js_def)

lemma js_timeout: "js ''timeout'' \<noteq> js ''success''"
  by (simp add: js_def)

lemma resultPath_inj: "resultPath a = resultPath b \<longleftrightarrow> a = b"
  by (simp add: resultPath_def)

lemma demo_parse_timeout: "demo_parse timeout_text = Some timeout_doc"
  by (simp add: demo_parse_def)

lemma demo_parse_success: "demo_parse success_text = Some success_doc"
  by (simp add: demo_parse_def timeout_text_def success_text_def quoted_def js_def)

lemma demo_parse_garbage: "demo_parse (js ''{'') = None"
  by (simp add: demo_parse_def timeout_text_def success_text_def quoted_def js_def)

lemma failed_to_read_not_waiting: "failed_to_read \<noteq> waiting"
  by (simp add: failed_to_read_def waiting_def json_response_def)

text \<open>
  A response other than \<^verbatim>\<open>waiting\<close>, the missing-id error and the read error is
  only given after the file was unlinked.
\<close>

lemma answered_means_consumed:
  assumes "sessionId req = Some sid"
    and "fst (GET parse bc req st) \<notin> {waiting, session_id_required, failed_to_read}"
  shows "tmp_files (snd (GET parse bc req st)) (resultPath sid) = None"
  using assms by (auto simp: GET_def Let_def split: option.splits sum.splits if_splits)

text \<open>
  \<^bold>\<open>C1.\<close> When a poll finds the artifact of its session id and reads it (the file
  exists and \<^verbatim>\<open>JSON.parse\<close> returns), the file is gone when the poll returns, and in
  every sequence of later polls, of this id or of others, each poll of this id
  answers \<^verbatim>\<open>waiting\<close>. Nothing but the detached login script, which is outside
  this handler, creates such a file. (The handler's name for the case in which
  \<^verbatim>\<open>JSON.parse\<close> throws is \<^verbatim>\<open>Failed to read session data\<close>; that case is C9.)
\<close>

theorem poll_consumes_artifact_once:
  assumes "sessionId req = Some sid" "sid \<noteq> []"
    and "tmp_files st (resultPath sid) = Some data" "parse data = Some result"
    and "i < length reqs" "sessionId (reqs ! i) = Some sid"
  shows "tmp_files (snd (GET parse bc req st)) (resultPath sid) = None
       \<and> fst (polls parse bc reqs (snd (GET parse bc req st))) ! i = waiting"
proof -
  have gone: "tmp_files (snd (GET parse bc req st)) (resultPath sid) = None"
    using assms(1-4) by (rule GET_consumes)
  show ?thesis using gone polls_absent_waiting [OF gone assms(2) assms(5,6)] by simp
qed

theorem poll_consumes_artifact_once_witness:
  "tmp_files (server_with timeout_text) (resultPath (js ''s1'')) = Some timeout_text
   \<and> demo_parse timeout_text = Some timeout_doc
   \<and> fst (GET demo_parse shift_cipher (poll_of ''s1'' False) (server_with timeout_text))
       = json_response timeout_doc
   \<and> fst (polls demo_parse shift_cipher [poll_of ''s2'' False, poll_of ''s1'' False]
        (snd (GET demo_parse shift_cipher (poll_of ''s1'' False) (server_with timeout_text)))) ! 1
       = waiting"
proof -
  have f: "tmp_files (server_with timeout_text) (resultPath (js ''s1'')) = Some timeout_text"
    by (simp add: server_with_def)
  have h1: "sessionId (poll_of ''s1'' False) = Some (js ''s1'')" by (simp add: poll_of_def)
  have h5: "1 < length [poll_of ''s2'' False, poll_of ''s1'' False]" by simp
  have h6: "sessionId ([poll_of ''s2'' False, poll_of ''s1'' False] ! 1) = Some (js ''s1'')"
    by (simp add: poll_of_def)
  have g: "fst (GET demo_parse shift_cipher (poll_of ''s1'' False) (server_with timeout_text))
      = json_response timeout_doc"
    using js_s1(1) js_timeout by (simp add: GET_def h1 f demo_parse_timeout timeout_doc_def)
  from poll_consumes_artifact_once [where req = "poll_of ''s1'' False" and sid = "js ''s1''"
      and st = "server_with timeout_text" and data = timeout_text and parse = demo_parse
      and result = timeout_doc and i = 1 and reqs = "[poll_of ''s2'' False, poll_of ''s1'' False]"
      and bc = shift_cipher, OF h1 js_s1(1) f demo_parse_timeout h5 h6]
  have w: "fst (polls demo_parse shift_cipher [poll_of ''s2'' False, poll_of ''s1'' False]
        (snd (GET demo_parse shift_cipher (poll_of ''s1'' False) (server_with timeout_text)))) ! 1
       = waiting"
    by (rule conjunct2)
  show ?thesis by (intro conjI f demo_parse_timeout g w)
qed

text \<open>
  \<^bold>\<open>C8.\<close> The file is unlinked before the cookie is encrypted and inserted. When
  the artifact says \<^verbatim>\<open>success\<close> and saving fails, the poll answers the error
  \<^verbatim>\<open>Failed to save account\<close> with the file already gone and the accounts table as
  it was; later polls of this id answer \<^verbatim>\<open>waiting\<close> and change nothing, so the token
  of this artifact is in no row.
\<close>

theorem failed_save_loses_token:
  assumes "sessionId req = Some sid" "sid \<noteq> []"
    and "tmp_files st (resultPath sid) = Some data" "parse data = Some result"
    and "get_prop result (js ''status'') = Some (JStr (js ''success''))"
    and "save_cookie bc req result (linkedin_accounts st) = Inl e"
    and "\<forall>r \<in> set reqs. sessionId r = Some sid"
    and "st1 = st\<lparr>tmp_files := (tmp_files st)(resultPath sid := None)\<rparr>"
  shows "GET parse bc req st = (failed_to_save, st1)
       \<and> tmp_files st1 (resultPath sid) = None
       \<and> linkedin_accounts st1 = linkedin_accounts st
       \<and> polls parse bc reqs st1 = (replicate (length reqs) waiting, st1)"
proof -
  have g: "GET parse bc req st = (failed_to_save, st1)"
    unfolding assms(8) using assms(1-6) by (rule GET_failed_save)
  have a: "tmp_files st1 (resultPath sid) = None" using assms(8) by simp
  show ?thesis using g a polls_same_id_waiting [OF a assms(2) assms(7)] assms(8) by simp
qed

theorem failed_save_loses_token_witness:
  "save_cookie shift_cipher (poll_of ''s1'' True) success_doc [] = Inl InsertThrew
   \<and> GET demo_parse shift_cipher (poll_of ''s1'' True) (server_with success_text)
       = (failed_to_save, \<lparr>tmp_files = Map.empty, linkedin_accounts = []\<rparr>)
   \<and> polls demo_parse shift_cipher [poll_of ''s1'' False, poll_of ''s1'' False]
        \<lparr>tmp_files = Map.empty, linkedin_accounts = []\<rparr>
       = ([waiting, waiting], \<lparr>tmp_files = Map.empty, linkedin_accounts = []\<rparr>)"
proof -
  let ?st = "server_with success_text"
  let ?st1 = "\<lparr>tmp_files = Map.empty, linkedin_accounts = []\<rparr> :: server"
  let ?reqs = "[poll_of ''s1'' False, poll_of ''s1'' False]"
  have l: "length zero_iv = 16" by (simp add: zero_iv_def)
  from decrypt_encrypt_bytes [OF shift_cipher_ok l, of "js ''AQ''"] obtain r where
    r: "encrypt shift_cipher zero_iv (js ''AQ'') = Inr r" by blast
  have c: "get_prop success_doc (js ''cookie'') = Some (JStr (js ''AQ''))"
    by (simp add: success_doc_def js_def)
  have s: "save_cookie shift_cipher (poll_of ''s1'' True) success_doc [] = Inl InsertThrew"
    by (simp add: save_cookie_def c poll_of_def r insert_account_def)
  have h1: "sessionId (poll_of ''s1'' True) = Some (js ''s1'')" by (simp add: poll_of_def)
  have f: "tmp_files ?st (resultPath (js ''s1'')) = Some success_text" by (simp add: server_with_def)
  have status: "get_prop success_doc (js ''status'') = Some (JStr (js ''success''))"
    by (simp add: success_doc_def)
  have s': "save_cookie shift_cipher (poll_of ''s1'' True) success_doc (linkedin_accounts ?st) = Inl InsertThrew"
    using s by (simp add: server_with_def)
  have all: "\<forall>r \<in> set ?reqs. sessionId r = Some (js ''s1'')" by (simp add: poll_of_def)
  have st1: "?st1 = ?st\<lparr>tmp_files := (tmp_files ?st)(resultPath (js ''s1'') := None)\<rparr>"
    by (simp add: server_with_def)
  note w = failed_save_loses_token [where req = "poll_of ''s1'' True" and sid = "js ''s1''"
      and st = ?st and data = success_text and parse = demo_parse and result = success_doc
      and bc = shift_cipher and e = InsertThrew and reqs = ?reqs and ?st1.0 = ?st1,
      OF h1 js_s1(1) f demo_parse_success status s' all st1]
  have w1: "GET demo_parse shift_cipher (poll_of ''s1'' True) ?st = (failed_to_save, ?st1)"
    using w by (rule conjunct1)
  have w4: "polls demo_parse shift_cipher ?reqs ?st1 = (replicate (length ?reqs) waiting, ?st1)"
    using w by blast
  have rep: "replicate (length ?reqs) waiting = [waiting, waiting]" by simp
  show ?thesis using s w1 w4 unfolding rep by (intro conjI)
qed

text \<open>
  \<^bold>\<open>C9.\<close> When the artifact exists and \<^verbatim>\<open>JSON.parse\<close> throws on its contents, the
  poll answers the error \<^verbatim>\<open>Failed to read session data\<close> and leaves the state, the
  file with it, as it was; polls of this id go on reading the file and answering
  that error, which is not \<^verbatim>\<open>waiting\<close>.
\<close>

theorem unparseable_artifact_kept:
  assumes "sid \<noteq> []" "tmp_files st (resultPath sid) = Some data" "parse data = None"
    and "\<forall>r \<in> set reqs. sessionId r = Some sid"
  shows "polls parse bc reqs st = (replicate (length reqs) failed_to_read, st)
       \<and> tmp_files (snd (polls parse bc reqs st)) (resultPath sid) = Some data
       \<and> failed_to_read \<noteq> waiting"
proof -
  have "polls parse bc reqs st = (replicate (length reqs) failed_to_read, st)"
    using assms by (rule polls_unparseable)
  then show ?thesis using assms(2) failed_to_read_not_waiting by simp
qed

theorem unparseable_artifact_kept_witness:
  "demo_parse (js ''{'') = None
   \<and> polls demo_parse shift_cipher [poll_of ''s1'' False, poll_of ''s1'' False] (server_with (js ''{''))
       = ([failed_to_read, failed_to_read], server_with (js ''{''))
   \<and> tmp_files (server_with (js ''{'')) (resultPath (js ''s1'')) = Some (js ''{'')"
proof -
  let ?reqs = "[poll_of ''s1'' False, poll_of ''s1'' False]"
  have f: "tmp_files (server_with (js ''{'')) (resultPath (js ''s1'')) = Some (js ''{'')"
    by (simp add: server_with_def)
  have all: "\<forall>r \<in> set ?reqs. sessionId r = Some (js ''s1'')" by (simp add: poll_of_def)
  from unparseable_artifact_kept [where sid = "js ''s1''" and st = "server_with (js ''{'')"
      and data = "js ''{''" and parse = demo_parse and reqs = ?reqs and bc = shift_cipher,
      OF js_s1(1) f demo_parse_garbage all]
  have w: "polls demo_parse shift_cipher ?reqs (server_with (js ''{''))
      = (replicate (length ?reqs) failed_to_read, server_with (js ''{''))"
    by (rule conjunct1)
  have rep: "replicate (length ?reqs) failed_to_read = [failed_to_read, failed_to_read]" by simp
  show ?thesis using demo_parse_garbage w f unfolding rep by (intro conjI)
qed

section \<open>The session check of \<^verbatim>\<open>fetchPosts\<close>\<close>

lemma fetchPosts_login:
  assumes "js_includes (cw_feed_url w) (js ''login'') \<or> js_includes (cw_feed_url w) (js ''guest'')"
    and "fetchPosts bc w d = (res, d', acts)"
  shows "d' = d" "ScrollBy \<notin> set acts" "Snapshot \<notin> set acts" "res \<noteq> FetchCompleted"
  using assms by (auto simp: fetchPosts_def Let_def split: option.splits sum.splits if_splits)

lemma fetchPosts_invalid:
  assumes "js_includes (cw_feed_url w) (js ''login'') \<or> js_includes (cw_feed_url w) (js ''guest'')"
    and "cw_account w = Some account" "decrypt bc (li_at_encrypted account) = Inr li_at" "cw_launch_ok w"
  shows "fetchPosts bc w d =
     (SessionInvalid, d,
      [Launch, AddCookie li_at, Goto (js ''https://www.linkedin.com/feed/''), CloseBrowser])"
  using assms by (simp add: fetchPosts_def Let_def)

lemma login_url: "js_includes (js ''https://www.linkedin.com/login'') (js ''login'')"
  by (simp add: js_def)

text \<open>
  \<^bold>\<open>C7.\<close> When the page URL after the navigation to the feed contains \<^verbatim>\<open>login\<close> or
  \<^verbatim>\<open>guest\<close>, the run does not complete: \<^verbatim>\<open>data/posts.json\<close> is as it was and the
  browser was given no scroll and no snapshot. When the run got as far as the
  check (an account, a token that decrypts, a browser that starts) it ends as
  session-invalid, right after the navigation to the feed, with the browser closed.
\<close>

theorem session_precheck_abort:
  assumes "js_includes (cw_feed_url w) (js ''login'') \<or> js_includes (cw_feed_url w) (js ''guest'')"
    and "fetchPosts bc w d = (res, d', acts)"
  shows "d' = d \<and> ScrollBy \<notin> set acts \<and> Snapshot \<notin> set acts \<and> res \<noteq> FetchCompleted
       \<and> (cw_account w = Some account \<longrightarrow> decrypt bc (li_at_encrypted account) = Inr li_at
            \<longrightarrow> cw_launch_ok w
            \<longrightarrow> res = SessionInvalid
                \<and> acts = [Launch, AddCookie li_at, Goto (js ''https://www.linkedin.com/feed/''), CloseBrowser])"
  using fetchPosts_login [OF assms] fetchPosts_invalid [OF assms(1), of account bc li_at d] assms(2)
  by simp

theorem session_precheck_abort_witness:
  "js_includes (cw_feed_url login_world) (js ''login'')
   \<and> fetchPosts shift_cipher login_world \<lparr>posts_json = None\<rparr>
       = (SessionInvalid, \<lparr>posts_json = None\<rparr>,
          [Launch, AddCookie (js ''AQ''), Goto (js ''https://www.linkedin.com/feed/''), CloseBrowser])
   \<and> ScrollBy \<notin> set [Launch, AddCookie (js ''AQ''), Goto (js ''https://www.linkedin.com/feed/''), CloseBrowser]"
proof -
  let ?acts = "[Launch, AddCookie (js ''AQ''), Goto (js ''https://www.linkedin.com/feed/''), CloseBrowser]"
  have u: "js_includes (cw_feed_url login_world) (js ''login'') \<or> js_includes (cw_feed_url login_world) (js ''guest'')"
    using login_url by (simp add: login_world_def)
  have a: "cw_account login_world = Some demo_account" "cw_launch_ok login_world"
    by (simp_all add: login_world_def)
  have t: "decrypt shift_cipher (li_at_encrypted demo_account) = Inr (js ''AQ'')"
    by (simp add: demo_account_def demo_decrypt)
  have run: "fetchPosts shift_cipher login_world \<lparr>posts_json = None\<rparr> = (SessionInvalid, \<lparr>posts_json = None\<rparr>, ?acts)"
    by (rule fetchPosts_invalid [OF u a(1) t a(2)])
  note w = session_precheck_abort [where w = login_world and bc = shift_cipher
      and d = "\<lparr>posts_json = None\<rparr>" and res = SessionInvalid and d' = "\<lparr>posts_json = None\<rparr>"
      and acts = ?acts, OF u run]
  have s: "ScrollBy \<notin> set ?acts" using w by blast
  have l: "js_includes (cw_feed_url login_world) (js ''login'')"
    using login_url by (simp add: login_world_def)
  show ?thesis by (intro conjI l run s)
qed

lemma fetchPosts_completed:
  "fetchPosts bc w d = (FetchCompleted, d', acts) \<Longrightarrow>
     posts_json d' = Some (all_posts (extract_all (cw_updates w)))"
  by (auto simp: fetchPosts_def Let_def split: option.splits sum.splits if_splits goto_outcome.splits)

lemma fetchPosts_completes:
  assumes "cw_account w = Some account" "decrypt bc (li_at_encrypted account) = Inr li_at"
    and "cw_launch_ok w" "cw_feed_goto w = Navigated" "cw_activity_goto w = Navigated"
    and "\<not> js_includes (cw_feed_url w) (js ''login'')" "\<not> js_includes (cw_feed_url w) (js ''guest'')"
  shows "fetchPosts bc w d =
     (FetchCompleted, d\<lparr>posts_json := Some (all_posts (extract_all (cw_updates w)))\<rparr>,
      [Launch, AddCookie li_at, Goto (js ''https://www.linkedin.com/feed/''),
       Goto (js ''https://www.linkedin.com/in/me/recent-activity/all/''), WaitForSelector]
        @ scroll_phase @ [Snapshot, CloseBrowser])"
  using assms by (simp add: fetchPosts_def Let_def redirect_error_def)

lemma demo_extract:
  "all_posts (extract_all [update_of None, update_of (Some []), update_of (Some (js ''A''))])
     = [to_ref (raw (js ''A''))\<lparr>ref_posted_at := []\<rparr>]"
proof -
  have ne: "js ''A'' \<noteq> []" by (simp add: js_def)
  then show ?thesis
    by (simp add: all_posts_def extract_all_def List.map_filter_simps extract_update_def update_of_def
          time_text_def map_has_def to_ref_def raw_def Let_def)
qed

lemma feed_world_ready:
  "cw_account feed_world = Some demo_account"
  "decrypt shift_cipher (li_at_encrypted demo_account) = Inr (js ''AQ'')"
  "cw_launch_ok feed_world" "cw_feed_goto feed_world = Navigated"
  "cw_activity_goto feed_world = Navigated"
  "\<not> js_includes (cw_feed_url feed_world) (js ''login'')"
  "\<not> js_includes (cw_feed_url feed_world) (js ''guest'')"
  by (simp_all add: feed_world_def login_world_def demo_account_def demo_decrypt)
     (simp_all add: js_def)

text \<open>
  \<^bold>\<open>C10.\<close> A feed element whose \<^verbatim>\<open>data-urn\<close> is missing or empty gives no raw item; the
  deduplication skips an item with an empty urn, whatever list it is given; so every
  reference of the collection output has a non-empty urn, which is the \<^verbatim>\<open>data-urn\<close>
  of an element of the snapshot. A run that completes writes this output.
\<close>

theorem collected_urn_nonempty:
  "(data_urn u = None \<or> data_urn u = Some [] \<longrightarrow> extract_update u = None)
   \<and> (r \<in> set (all_posts items) \<longrightarrow> ref_postUrn r \<noteq> [])
   \<and> (q \<in> set (all_posts (extract_all updates)) \<longrightarrow>
        ref_postUrn q \<noteq> [] \<and> (\<exists>v \<in> set updates. data_urn v = Some (ref_postUrn q)))
   \<and> (fetchPosts bc w d = (FetchCompleted, d', acts) \<longrightarrow>
        (\<exists>refs. posts_json d' = Some refs \<and> (\<forall>p \<in> set refs. ref_postUrn p \<noteq> [])))"
proof (intro conjI impI)
  assume "data_urn u = None \<or> data_urn u = Some []"
  then show "extract_update u = None" by (auto simp: extract_update_def)
next
  assume "r \<in> set (all_posts items)"
  then show "ref_postUrn r \<noteq> []" by (auto dest!: all_posts_source simp: to_ref_def)
next
  assume q: "q \<in> set (all_posts (extract_all updates))"
  then obtain i where i: "i \<in> set (extract_all updates)" "q = to_ref i" "postUrn i \<noteq> []"
    by (auto dest!: all_posts_source)
  then show "ref_postUrn q \<noteq> []" by (simp add: to_ref_def)
  from extract_all_urn [OF i(1)] i(2)
  show "\<exists>v \<in> set updates. data_urn v = Some (ref_postUrn q)" by (auto simp: to_ref_def)
next
  assume "fetchPosts bc w d = (FetchCompleted, d', acts)"
  then have "posts_json d' = Some (all_posts (extract_all (cw_updates w)))"
    by (rule fetchPosts_completed)
  moreover have "\<forall>p \<in> set (all_posts (extract_all (cw_updates w))). ref_postUrn p \<noteq> []"
    by (auto dest!: all_posts_source simp: to_ref_def)
  ultimately show "\<exists>refs. posts_json d' = Some refs \<and> (\<forall>p \<in> set refs. ref_postUrn p \<noteq> [])"
    by blast
qed

theorem collected_urn_nonempty_witness:
  "extract_update (update_of None) = None
   \<and> all_posts (extract_all [update_of None, update_of (Some []), update_of (Some (js ''A''))])
       = [to_ref (raw (js ''A''))\<lparr>ref_posted_at := []\<rparr>]
   \<and> ref_postUrn (to_ref (raw (js ''A''))\<lparr>ref_posted_at := []\<rparr>) \<noteq> []
   \<and> (\<exists>d' acts. fetchPosts shift_cipher feed_world \<lparr>posts_json = None\<rparr> = (FetchCompleted, d', acts)
         \<and> (\<exists>refs. posts_json d' = Some refs \<and> (\<forall>p \<in> set refs. ref_postUrn p \<noteq> [])))"
proof -
  let ?ups = "[update_of None, update_of (Some []), update_of (Some (js ''A''))]"
  let ?q = "to_ref (raw (js ''A''))\<lparr>ref_posted_at := []\<rparr>"
  let ?d' = "\<lparr>posts_json = None\<rparr>\<lparr>posts_json := Some (all_posts (extract_all (cw_updates feed_world)))\<rparr>"
  let ?acts = "[Launch, AddCookie (js ''AQ''), Goto (js ''https://www.linkedin.com/feed/''),
       Goto (js ''https://www.linkedin.com/in/me/recent-activity/all/''), WaitForSelector]
        @ scroll_phase @ [Snapshot, CloseBrowser]"
  have run: "fetchPosts shift_cipher feed_world \<lparr>posts_json = None\<rparr> = (FetchCompleted, ?d', ?acts)"
    by (rule fetchPosts_completes [OF feed_world_ready])
  note w = collected_urn_nonempty [where u = "update_of None" and r = ?q and items = "[raw (js ''A'')]"
      and q = ?q and updates = ?ups and bc = shift_cipher and w = feed_world
      and d = "\<lparr>posts_json = None\<rparr>" and d' = ?d' and acts = ?acts]
  have a: "extract_update (update_of None) = None" using w by (simp add: update_of_def)
  have b: "ref_postUrn ?q \<noteq> []" using w demo_extract by simp
  have c: "\<exists>refs. posts_json ?d' = Some refs \<and> (\<forall>p \<in> set refs. ref_postUrn p \<noteq> [])"
    using w run by blast
  show ?thesis using a demo_extract b run c by blast
qed

section \<open>Numbers\<close>

lemma bit_length_pos: "0 < n \<Longrightarrow> bit_length n = Suc (bit_length (n div 2))"
  by (subst bit_length.simps) simp

lemma bit_length_lower: "0 < n \<Longrightarrow> 2 ^ (bit_length n - 1) \<le> n"
proof (induction n rule: bit_length.induct)
  case (1 n)
  show ?case
  proof (cases "n div 2 = 0")
    case True
    then have "bit_length (n div 2) = 0" by (simp add: bit_length.simps)
    then show ?thesis using 1(2) by (simp add: bit_length_pos)
  next
    case False
    then have h: "0 < n div 2" by simp
    have ih: "2 ^ (bit_length (n div 2) - 1) \<le> n div 2" using 1(1) 1(2) h by simp
    have "bit_length n - 1 = Suc (bit_length (n div 2) - 1)"
      using 1(2) h by (simp add: bit_length_pos [of n] bit_length_pos [of "n div 2"])
    then have "(2::nat) ^ (bit_length n - 1) = 2 * 2 ^ (bit_length (n div 2) - 1)" by simp
    also have "\<dots> \<le> 2 * (n div 2)" using ih by simp
    also have "\<dots> \<le> n" by simp
    finally show ?thesis .
  qed
qed

lemma double_overflow_bounds: "2 ^ 53 < double_overflow" "10 ^ 308 < double_overflow"
  "double_overflow \<le> 10 ^ 309 - 1"
  by (simp_all add: double_overflow_def)

lemma number_of_nat_small: "n < 2 ^ 53 \<Longrightarrow> number_of_nat n = Finite n"
  using double_overflow_bounds(1) by (simp add: number_of_nat_def)


lemma number_of_nat_zero: "number_of_nat n = Finite 0 \<longleftrightarrow> n = 0"
proof (cases "double_overflow \<le> n \<or> n < 2 ^ 53")
  case True
  then show ?thesis using double_overflow_bounds(1) by (auto simp: number_of_nat_def)
next
  case False
  then have n: "0 < n" by simp
  define s where "s = bit_length n - 53"
  have "(2::nat) ^ s \<le> 2 ^ (bit_length n - 1)" unfolding s_def by (rule power_increasing) simp_all
  also have "\<dots> \<le> n" by (rule bit_length_lower [OF n])
  finally have "0 < n div 2 ^ s" by (simp add: div_greater_zero_iff)
  then show ?thesis using False n by (simp add: number_of_nat_def Let_def s_def)
qed


lemma digits_value_Nil: "digits_value [] = 0"
  by (simp add: digits_value_def)

lemma count_of_zero_iff: "count_of t = Finite 0 \<longleftrightarrow> digits_value (filter is_digit t) = 0"
  by (simp add: count_of_def Let_def number_of_nat_zero digits_value_Nil)






lemma count_of_zero_text: "count_of (js ''0'') = Finite 0"
  by (simp add: count_of_zero_iff js_def is_digit_def digits_value_def)

lemma count_of_empty: "count_of [] = Finite 0"
  by (simp add: count_of_def)

lemma count_of_1234: "count_of (js ''1,234'') = Finite 1234"
proof -
  have "filter is_digit (js ''1,234'') = js ''1234''" by (simp add: js_def is_digit_def)
  moreover have "digits_value (js ''1234'') = 1234" by (simp add: js_def digits_value_def)
  moreover have "js ''1234'' \<noteq> []" by (simp add: js_def)
  ultimately show ?thesis by (simp add: count_of_def number_of_nat_small)
qed

section \<open>The enrichment artifact\<close>


lemma entry_json_postUrn:
  "get_prop (entry_json e) (js ''postUrn'') = Some (JStr (ref_postUrn (en_post e)))"
  by (simp add: entry_json_def post_members_def js_def)


section \<open>The enrichment loop\<close>

lemma enrich_loop_entries:
  "list_all entry_ok (results pr) \<Longrightarrow> list_all entry_ok (results (snd (enrich_loop page i posts pr)))"
proof (induction posts arbitrary: i pr)
  case Nil
  then show ?case by simp
next
  case (Cons post posts)
  show ?case
  proof (cases "post_urn post")
    case None
    then show ?thesis using Cons.prems by simp
  next
    case (Some urn)
    show ?thesis
    proof (cases "page i (detail_url urn)")
      case VisitThrew
      then show ?thesis using Some Cons.prems by (simp add: Let_def Cons.IH)
    next
      case (Evaluated data)
      show ?thesis
      proof (cases "count_of (impressionsText data) = Finite 0")
        case True
        then show ?thesis using Some Evaluated Cons.prems by (simp add: Let_def Cons.IH)
      next
        case False
        then have "entry_ok \<lparr>en_post = post, en_data = data, impressions = count_of (impressionsText data)\<rparr>"
          by (simp add: entry_ok_def)
        then show ?thesis using False Some Evaluated Cons.prems by (simp add: Let_def Cons.IH)
      qed
    qed
  qed
qed

lemma final_keep_iff: "final_keep r \<longleftrightarrow> count_of (impressionsText (en_data r)) \<noteq> Finite 0"
  by (cases "impressionsText (en_data r) = []")
     (simp_all add: final_keep_def Let_def count_of_zero_text count_of_empty)

lemma filter_final_keep_id: "list_all entry_ok rs \<Longrightarrow> filter final_keep rs = rs"
  by (induction rs) (auto simp: final_keep_iff entry_ok_def)



lemma enrich_loop_all:
  "\<forall>p \<in> set posts. ref_postUrn p \<noteq> [] \<Longrightarrow>
   fst (enrich_loop page i posts pr)
   \<and> visited (snd (enrich_loop page i posts pr))
       = visited pr @ map (\<lambda>p. detail_url (Some (ref_postUrn p))) posts
   \<and> results (snd (enrich_loop page i posts pr))
       = results pr @ List.map_filter (item_result page) (enumerate i posts)"
proof (induction posts arbitrary: i pr)
  case Nil
  then show ?case by (simp add: List.map_filter_simps)
next
  case (Cons post posts)
  then have u: "post_urn post = Some (Some (ref_postUrn post))" by (simp add: post_urn_def)
  have rest: "\<forall>p \<in> set posts. ref_postUrn p \<noteq> []" using Cons.prems by simp
  note IH = Cons.IH [OF rest]
  show ?case
  proof (cases "page i (detail_url (Some (ref_postUrn post)))")
    case VisitThrew
    then show ?thesis using u IH by (simp add: Let_def item_result_def List.map_filter_simps)
  next
    case (Evaluated data)
    then show ?thesis using u IH by (simp add: Let_def item_result_def List.map_filter_simps)
  qed
qed

lemma fetchAnalytics_run:
  assumes "posts_file d = Some posts" "posts \<noteq> []"
    and "aw_account w = Some account" "decrypt bc (li_at_encrypted account) = Inr li_at" "aw_launch_ok w"
    and "\<forall>p \<in> set (take 5 posts). ref_postUrn p \<noteq> []"
  shows "\<exists>pr. fetchAnalytics bc w d
           = (Saved,
              d\<lparr>enriched_file := Some (JArr (map entry_json
                   (List.map_filter (item_result (aw_page w)) (enumerate 0 (take 5 posts)))))\<rparr>,
              pr)
         \<and> visited pr = map (\<lambda>p. detail_url (Some (ref_postUrn p))) (take 5 posts)
         \<and> results pr = List.map_filter (item_result (aw_page w)) (enumerate 0 (take 5 posts))"
proof -
  obtain ok pr where l: "enrich_loop (aw_page w) 0 (take 5 posts) no_progress = (ok, pr)"
    by (cases "enrich_loop (aw_page w) 0 (take 5 posts) no_progress")
  from enrich_loop_all [OF assms(6), of "aw_page w" 0 no_progress] l
  have ok: "ok" and v: "visited pr = map (\<lambda>p. detail_url (Some (ref_postUrn p))) (take 5 posts)"
    and r: "results pr = List.map_filter (item_result (aw_page w)) (enumerate 0 (take 5 posts))"
    by (simp_all add: no_progress_def)
  have "list_all entry_ok (results (snd (enrich_loop (aw_page w) 0 (take 5 posts) no_progress)))"
    by (rule enrich_loop_entries) (simp add: no_progress_def)
  then have "filter final_keep (results pr) = results pr" using l by (simp add: filter_final_keep_id)
  then have "fetchAnalytics bc w d
      = (Saved, d\<lparr>enriched_file := Some (JArr (map entry_json
                   (List.map_filter (item_result (aw_page w)) (enumerate 0 (take 5 posts)))))\<rparr>, pr)"
    using assms(1-5) l ok r by (simp add: fetchAnalytics_def Let_def)
  then show ?thesis using v r by blast
qed

lemma demo_world_ready:
  "aw_account demo_world = Some demo_account"
  "decrypt shift_cipher (li_at_encrypted demo_account) = Inr (js ''AQ'')"
  "aw_launch_ok demo_world"
  by (simp_all add: demo_world_def demo_account_def demo_decrypt)


lemma detail_url_inj: "detail_url (Some a) = detail_url (Some b) \<longleftrightarrow> a = b"
  by (simp add: detail_url_def)

lemma item_result_1234:
  "item_result page_1234 (i, stored u)
     = (if js u = [] then None
        else Some \<lparr>en_post = stored u,
                   en_data = \<lparr>content = [], imageUrl = [], likes = Finite 0, comments = Finite 0,
                              reposts = Finite 0, impressionsText = js ''1,234'', date = []\<rparr>,
                   impressions = Finite 1234\<rparr>)"
  by (simp add: item_result_def post_urn_def stored_def page_1234_def count_of_1234)


text \<open>
  \<^bold>\<open>C2, as the code has it.\<close> The run works on \<^verbatim>\<open>posts.slice(0, 5)\<close>. When it gets
  to the loop (a non-empty reference list, an account, a token that decrypts, a
  browser that starts) and the first five references have a urn, it navigates to
  exactly these, one after the other in their order, and what it writes is what
  the loop body makes of each of them: the entry, or nothing when the visit throws
  or the count is zero. References after the fifth are not read.
\<close>

theorem enrichment_visits_first_five:
  assumes "posts_file d = Some posts" "posts \<noteq> []"
    and "aw_account w = Some account" "decrypt bc (li_at_encrypted account) = Inr li_at" "aw_launch_ok w"
    and "\<forall>p \<in> set (take 5 posts). ref_postUrn p \<noteq> []"
  shows "\<exists>d' pr. fetchAnalytics bc w d = (Saved, d', pr)
           \<and> visited pr = map (\<lambda>p. detail_url (Some (ref_postUrn p))) (take 5 posts)
           \<and> enriched_file d'
               = Some (JArr (map entry_json
                   (List.map_filter (item_result (aw_page w)) (enumerate 0 (take 5 posts)))))"
proof -
  from fetchAnalytics_run [OF assms] obtain pr where
    "fetchAnalytics bc w d
       = (Saved,
          d\<lparr>enriched_file := Some (JArr (map entry_json
               (List.map_filter (item_result (aw_page w)) (enumerate 0 (take 5 posts)))))\<rparr>,
          pr)"
    "visited pr = map (\<lambda>p. detail_url (Some (ref_postUrn p))) (take 5 posts)"
    by blast
  then show ?thesis by simp
qed

lemma stored_urn: "ref_postUrn (stored u) = js u"
  by (simp add: stored_def)

lemma six_urls:
  "map (\<lambda>p. detail_url (Some (ref_postUrn p))) (take 5 six_posts)
     = map (\<lambda>u. detail_url (Some (js u))) [''p1'', ''p2'', ''p3'', ''p4'', ''p5'']"
  by (simp add: six_posts_def stored_urn)

lemma six_nonempty: "\<forall>p \<in> set (take 5 six_posts). ref_postUrn p \<noteq> []"
  by (simp add: six_posts_def stored_urn js_def)

lemma six_output:
  "map (\<lambda>e. get_prop e (js ''postUrn''))
       (map entry_json (List.map_filter (item_result page_1234) (enumerate 0 (take 5 six_posts))))
     = map (\<lambda>u. Some (JStr (js u))) [''p1'', ''p2'', ''p3'', ''p4'', ''p5'']"
proof -
  have ne: "js ''p1'' \<noteq> []" "js ''p2'' \<noteq> []" "js ''p3'' \<noteq> []" "js ''p4'' \<noteq> []" "js ''p5'' \<noteq> []"
    by (simp_all add: js_def)
  show ?thesis
    by (simp add: six_posts_def enumerate_eq_zip upt_rec List.map_filter_simps item_result_1234 ne
          stored_urn entry_json_postUrn)
qed

lemma six_not_visited:
  "detail_url (Some (js ''p6''))
     \<notin> set (map (\<lambda>u. detail_url (Some (js u))) [''p1'', ''p2'', ''p3'', ''p4'', ''p5''])"
  by (simp add: detail_url_inj) (simp add: js_def)

theorem enrichment_visits_first_five_witness:
  "posts_file \<lparr>posts_file = Some six_posts, enriched_file = None\<rparr> = Some six_posts
   \<and> six_posts \<noteq> []
   \<and> (\<exists>d' pr. fetchAnalytics shift_cipher demo_world \<lparr>posts_file = Some six_posts, enriched_file = None\<rparr>
                  = (Saved, d', pr)
         \<and> visited pr = map (\<lambda>u. detail_url (Some (js u))) [''p1'', ''p2'', ''p3'', ''p4'', ''p5''])"
proof -
  let ?d = "\<lparr>posts_file = Some six_posts, enriched_file = None\<rparr>"
  have f: "posts_file ?d = Some six_posts" by simp
  have ne: "six_posts \<noteq> []" by (simp add: six_posts_def)
  from enrichment_visits_first_five [where d = ?d and posts = six_posts and w = demo_world
      and account = demo_account and bc = shift_cipher and li_at = "js ''AQ''",
      OF f ne demo_world_ready six_nonempty]
  obtain d' pr where "fetchAnalytics shift_cipher demo_world ?d = (Saved, d', pr)"
    "visited pr = map (\<lambda>p. detail_url (Some (ref_postUrn p))) (take 5 six_posts)"
    by blast
  then have "\<exists>d' pr. fetchAnalytics shift_cipher demo_world ?d = (Saved, d', pr)
      \<and> visited pr = map (\<lambda>u. detail_url (Some (js u))) [''p1'', ''p2'', ''p3'', ''p4'', ''p5'']"
    unfolding six_urls by blast
  then show ?thesis using f ne by blast
qed

text \<open>
  C2 as it is written fails on a list of six references: the run is saved,
  five pages were visited, the sixth reference was not navigated to and has no
  entry in the output.
\<close>

theorem sixth_reference_not_processed:
  "(case fetchAnalytics shift_cipher demo_world \<lparr>posts_file = Some six_posts, enriched_file = None\<rparr> of
      (res, d', pr) \<Rightarrow>
        res = Saved \<and> length (visited pr) = 5
        \<and> detail_url (Some (js ''p6'')) \<notin> set (visited pr)
        \<and> (case enriched_file d' of
             Some (JArr es) \<Rightarrow>
               map (\<lambda>e. get_prop e (js ''postUrn'')) es
                 = map (\<lambda>u. Some (JStr (js u))) [''p1'', ''p2'', ''p3'', ''p4'', ''p5'']
           | _ \<Rightarrow> False))"
proof -
  let ?d = "\<lparr>posts_file = Some six_posts, enriched_file = None\<rparr>"
  have f: "posts_file ?d = Some six_posts" by simp
  have ne: "six_posts \<noteq> []" by (simp add: six_posts_def)
  from fetchAnalytics_run [where d = ?d and posts = six_posts and w = demo_world
      and account = demo_account and bc = shift_cipher and li_at = "js ''AQ''",
      OF f ne demo_world_ready six_nonempty]
  obtain pr where run: "fetchAnalytics shift_cipher demo_world ?d
       = (Saved,
          ?d\<lparr>enriched_file := Some (JArr (map entry_json
              (List.map_filter (item_result (aw_page demo_world)) (enumerate 0 (take 5 six_posts)))))\<rparr>,
          pr)"
    and v: "visited pr = map (\<lambda>u. detail_url (Some (js u))) [''p1'', ''p2'', ''p3'', ''p4'', ''p5'']"
    unfolding six_urls by blast
  have p: "aw_page demo_world = page_1234" by (simp add: demo_world_def)
  show ?thesis unfolding run using six_not_visited six_output by (simp add: v p)
qed





end
